theory Spec2Isabelle
  imports Complex_Main
begin

section \<open>Data model\<close>

text \<open>
  Python floats (doubles) are modelled as real numbers; the single-precision rows of the
  Geom's vertex table are modelled by rounding. Python integers are \<open>int\<close> (arguments)
  and \<open>nat\<close> (loop counters and vertex indices, which the source only ever builds from
  \<open>range\<close> and \<open>enumerate\<close>). Every exception the source can raise is a value of
  \<open>error\<close>, and a function that can raise returns \<open>error + 'a\<close>.
\<close>

type_synonym point2 = "real \<times> real"
type_synonym point3 = "real \<times> real \<times> real"
type_synonym tri = "nat \<times> nat \<times> nat"

datatype error = ValueError | ZeroDivisionError | IndexError

definition bind_err :: "error + 'a \<Rightarrow> ('a \<Rightarrow> error + 'b) \<Rightarrow> error + 'b" where
  "bind_err m f = (case m of Inl e \<Rightarrow> Inl e | Inr x \<Rightarrow> f x)"

definition tau :: real where
  "tau = 2 * pi"

text \<open>Python's \<open>x % m\<close> for a positive modulus: the result has the sign of \<open>m\<close>.\<close>

definition py_mod :: "real \<Rightarrow> real \<Rightarrow> real" where
  "py_mod x m = x - m * of_int \<lfloor>x / m\<rfloor>"

section \<open>points2d.py\<close>

text \<open>
  \<open>yield_2d_circle_points\<close>: one point per \<open>point_index\<close> of \<open>range(quantity)\<close>. The
  division by \<open>quantity\<close> only runs inside the loop, where \<open>quantity \<ge> 1\<close>.
\<close>

definition yield_2d_circle_points :: "int \<Rightarrow> real \<Rightarrow> point2 \<Rightarrow> point2 list" where
  "yield_2d_circle_points quantity radius center =
     map (\<lambda>point_index.
            let angle_radians = (real point_index / real_of_int quantity) * tau;
                x = radius * cos angle_radians;
                y = radius * sin angle_radians
            in (x + fst center, y + snd center))
         [0..<nat quantity]"

text \<open>
  The angle computed by lines 61-72 of \<open>yield_2d_circle_points_plus\<close> for one
  \<open>point_index\<close>, after the conditional subtraction of \<open>tau\<close>.
\<close>

definition plus_divisor :: "int \<Rightarrow> bool \<Rightarrow> int" where
  "plus_divisor quantity include_last = (if include_last then quantity - 1 else quantity)"

definition plus_start_angle :: "real \<Rightarrow> real" where
  "plus_start_angle start_degrees = (py_mod start_degrees 360 / 360) * tau"

definition plus_angle_radians :: "int \<Rightarrow> real \<Rightarrow> bool \<Rightarrow> real \<Rightarrow> nat \<Rightarrow> real" where
  "plus_angle_radians quantity start_degrees include_last circle_proportion point_index =
     (let start_angle = plus_start_angle start_degrees;
          tau_proportion = circle_proportion * tau;
          divisor = plus_divisor quantity include_last;
          angle_radians = (real point_index / real_of_int divisor) * tau_proportion + start_angle
      in if angle_radians > tau then angle_radians - tau else angle_radians)"

text \<open>
  \<open>yield_2d_circle_points_plus\<close>. The generator divides by \<open>divisor\<close> when it computes
  its first sample; with \<open>divisor = 0\<close> that raises \<open>ZeroDivisionError\<close> before anything
  is yielded, and with \<open>quantity \<le> 0\<close> the loop body never runs.
\<close>

definition yield_2d_circle_points_plus ::
  "int \<Rightarrow> real \<Rightarrow> real \<Rightarrow> bool \<Rightarrow> real \<Rightarrow> point2 \<Rightarrow> error + point2 list" where
  "yield_2d_circle_points_plus quantity radius start_degrees include_last circle_proportion center =
     (if 0 < quantity \<and> plus_divisor quantity include_last = 0 then Inl ZeroDivisionError
      else Inr (map (\<lambda>point_index.
                  let angle_radians =
                        plus_angle_radians quantity start_degrees include_last
                          circle_proportion point_index;
                      x = radius * cos angle_radians;
                      y = radius * sin angle_radians
                  in (x + fst center, y + snd center))
                [0..<nat quantity]))"

section \<open>Bounded deques\<close>

text \<open>
  \<open>collections.deque(maxlen=n)\<close> as a list, left end first. \<open>extend\<close> appends on the
  right and discards from the left what exceeds \<open>maxlen\<close>; \<open>rotate(-1)\<close> moves the
  first element to the right end; \<open>d[0]\<close> and \<open>d[-1]\<close> raise \<open>IndexError\<close> on an
  empty deque.
\<close>

definition deque_extend :: "nat \<Rightarrow> 'a list \<Rightarrow> 'a list \<Rightarrow> 'a list" where
  "deque_extend maxlen d xs = (let l = d @ xs in drop (length l - maxlen) l)"

definition deque_rotate_left :: "'a list \<Rightarrow> 'a list" where
  "deque_rotate_left d = rotate1 d"

definition deque_front :: "'a list \<Rightarrow> error + 'a" where
  "deque_front d = (case d of [] \<Rightarrow> Inl IndexError | x # _ \<Rightarrow> Inr x)"

definition deque_back :: "'a list \<Rightarrow> error + 'a" where
  "deque_back d = (if d = [] then Inl IndexError else Inr (last d))"

text \<open>\<open>islice(it, start, stop)\<close> on a finite sequence.\<close>

definition islice :: "'a list \<Rightarrow> nat \<Rightarrow> nat \<Rightarrow> 'a list" where
  "islice xs start stop = drop start (take stop xs)"

section \<open>modelgen/uvspheregeom.py\<close>

text \<open>
  The state the function mutates: the rows handed to \<open>add_point\<close>, in order and as the
  Python floats they are (real numbers here), the index triples passed to
  \<open>add_tri_points_indices\<close>, and the two deques. \<open>add_point\<close> is the \<open>addData3\<close> of a
  writer on the vertex data; what the vertex data keeps of a row is a single-precision
  rounding of it, defined with the vertex table below (\<open>geom_vertex_table\<close>).
\<close>

record geom_state =
  points :: "point3 list"
  tris :: "tri list"
  current_ring_indices :: "nat list"
  previous_ring_indices :: "nat list"

definition add_point :: "point3 \<Rightarrow> geom_state \<Rightarrow> geom_state" where
  "add_point p st = st\<lparr>points := points st @ [p]\<rparr>"

definition add_tri_points_indices :: "nat \<Rightarrow> nat \<Rightarrow> nat \<Rightarrow> geom_state \<Rightarrow> geom_state" where
  "add_tri_points_indices a b c st = st\<lparr>tris := tris st @ [(a, b, c)]\<rparr>"

text \<open>The meridian samples without the two poles (lines 99-119).\<close>

definition segment_points_xz :: "real \<Rightarrow> int \<Rightarrow> error + point2 list" where
  "segment_points_xz radius no_of_rings =
     (let quantity_of_points = no_of_rings + 2 in
      bind_err
        (yield_2d_circle_points_plus quantity_of_points radius 270 True (1/2) (0, radius))
        (\<lambda>ps. Inr (islice ps 1 (nat (quantity_of_points - 1)))))"

text \<open>Lines 150-154 and 201-205: the points of one ring, written in order.\<close>

definition add_ring_points :: "int \<Rightarrow> real \<Rightarrow> real \<Rightarrow> geom_state \<Rightarrow> geom_state" where
  "add_ring_points no_of_segments segment_x segment_z st =
     fold (\<lambda>(ring_x, ring_y). add_point (ring_x, ring_y, segment_z))
          (yield_2d_circle_points no_of_segments segment_x (0, 0)) st"

text \<open>Lines 161-186: the fan around the first point, one triangle per iteration.\<close>

fun first_ring_tris :: "nat \<Rightarrow> geom_state \<Rightarrow> error + geom_state" where
  "first_ring_tris 0 st = Inr st"
| "first_ring_tris (Suc n) st =
     bind_err (deque_front (current_ring_indices st)) (\<lambda>i_front.
     bind_err (deque_back (current_ring_indices st)) (\<lambda>i_back.
       first_ring_tris n
         ((add_tri_points_indices 0 i_front i_back st)
            \<lparr>current_ring_indices := deque_rotate_left (current_ring_indices st)\<rparr>)))"

text \<open>Lines 230-248: two triangles per iteration between the previous and this ring.\<close>

fun ring_pair_tris :: "nat \<Rightarrow> geom_state \<Rightarrow> error + geom_state" where
  "ring_pair_tris 0 st = Inr st"
| "ring_pair_tris (Suc n) st =
     bind_err (deque_back (previous_ring_indices st)) (\<lambda>index_a0.
     bind_err (deque_front (previous_ring_indices st)) (\<lambda>index_a1.
     bind_err (deque_back (current_ring_indices st)) (\<lambda>index_b0.
     bind_err (deque_front (current_ring_indices st)) (\<lambda>index_b1.
       ring_pair_tris n
         ((add_tri_points_indices index_b1 index_a0 index_a1
            (add_tri_points_indices index_a0 index_b1 index_b0 st))
            \<lparr>previous_ring_indices := deque_rotate_left (previous_ring_indices st),
             current_ring_indices := deque_rotate_left (current_ring_indices st)\<rparr>)))))"

text \<open>Lines 264-277: the fan around the last point.\<close>

fun last_ring_tris :: "nat \<Rightarrow> nat \<Rightarrow> geom_state \<Rightarrow> error + geom_state" where
  "last_ring_tris index_of_last_point 0 st = Inr st"
| "last_ring_tris index_of_last_point (Suc n) st =
     bind_err (deque_back (previous_ring_indices st)) (\<lambda>i_back.
     bind_err (deque_front (previous_ring_indices st)) (\<lambda>i_front.
       last_ring_tris index_of_last_point n
         ((add_tri_points_indices index_of_last_point i_back i_front st)
            \<lparr>previous_ring_indices := deque_rotate_left (previous_ring_indices st)\<rparr>)))"

text \<open>
  The body of the loop over the meridian samples (lines 134-277) for one
  \<open>ring_index\<close> and its sample \<open>(segment_x, segment_z)\<close>.
\<close>

definition ring_body ::
  "real \<Rightarrow> nat \<Rightarrow> nat \<Rightarrow> nat \<Rightarrow> real \<Rightarrow> real \<Rightarrow> geom_state \<Rightarrow> error + geom_state" where
  "ring_body radius no_of_segments no_of_rings ring_index segment_x segment_z st =
     (let first_ring_index = 0;
          last_ring_index = no_of_rings - 1;
          no_of_points = 2 + no_of_segments * no_of_rings;
          index_of_last_point = no_of_points - 1
      in
      if ring_index = first_ring_index then
        (let st1 = add_point (0, 0, 0) st;
             st2 = add_ring_points (int no_of_segments) segment_x segment_z st1;
             st3 = st2\<lparr>current_ring_indices :=
                     deque_extend no_of_segments (current_ring_indices st2)
                       [1..<no_of_segments + 1]\<rparr>
         in bind_err (first_ring_tris no_of_segments st3) (\<lambda>st4.
              Inr (st4\<lparr>previous_ring_indices :=
                     deque_extend no_of_segments (previous_ring_indices st4)
                       (current_ring_indices st4)\<rparr>)))
      else
        (let st1 = add_ring_points (int no_of_segments) segment_x segment_z st;
             first_index_on_ring = ring_index * no_of_segments + 1;
             st2 = st1\<lparr>current_ring_indices :=
                     deque_extend no_of_segments (current_ring_indices st1)
                       [first_index_on_ring..<first_index_on_ring + no_of_segments]\<rparr>
         in bind_err (ring_pair_tris no_of_segments st2) (\<lambda>st3.
            let st4 = st3\<lparr>previous_ring_indices :=
                        deque_extend no_of_segments (previous_ring_indices st3)
                          (current_ring_indices st3)\<rparr>
            in if ring_index = last_ring_index then
                 last_ring_tris index_of_last_point no_of_segments
                   (add_point (0, 0, radius * 2) st4)
               else Inr st4)))"

fun ring_loop ::
  "real \<Rightarrow> nat \<Rightarrow> nat \<Rightarrow> (nat \<times> point2) list \<Rightarrow> geom_state \<Rightarrow> error + geom_state" where
  "ring_loop radius no_of_segments no_of_rings [] st = Inr st"
| "ring_loop radius no_of_segments no_of_rings ((ring_index, (segment_x, segment_z)) # rest) st =
     bind_err (ring_body radius no_of_segments no_of_rings ring_index segment_x segment_z st)
       (ring_loop radius no_of_segments no_of_rings rest)"

definition geom_init :: geom_state where
  "geom_init = \<lparr>points = [], tris = [], current_ring_indices = [], previous_ring_indices = []\<rparr>"

text \<open>
  \<open>get_uv_sphere_geom\<close>: the three checks, then the loop. The result is the rows
  handed to the vertex writer and the triangle primitive of the returned Geom; the
  vertex table that the Geom holds is \<open>geom_vertex_table\<close> of these rows.
  \<open>vdata_name\<close> only labels the vertex data and is left out. After the checks both
  counts are at least 3, so they are used as naturals.
\<close>

definition get_uv_sphere_geom :: "real \<Rightarrow> int \<Rightarrow> int \<Rightarrow> error + (point3 list \<times> tri list)" where
  "get_uv_sphere_geom radius no_of_segments no_of_rings =
     (if radius \<le> 0 then Inl ValueError
      else if no_of_segments < 3 then Inl ValueError
      else if no_of_rings < 3 then Inl ValueError
      else
        bind_err (segment_points_xz radius no_of_rings) (\<lambda>pts.
        bind_err (ring_loop radius (nat no_of_segments) (nat no_of_rings)
                    (List.enumerate 0 pts) geom_init) (\<lambda>st.
          Inr (points st, tris st))))"

section \<open>The vertex table of the Geom\<close>

text \<open>
  The vertex data is created with \<open>GeomVertexFormat.getV3()\<close>, which belongs to Panda3D:
  one column of three single-precision numbers per row. \<open>addData3\<close> converts each
  coordinate it is given to single precision (IEEE 754 binary32: 24 significant bits,
  round to nearest, ties to even, subnormal below \<open>2 powr (- 126)\<close>). A magnitude beyond the
  largest single-precision number is stored as an infinity; like the overflow of
  Python's own floats, infinities are outside this model.
\<close>

definition round_half_even :: "real \<Rightarrow> int" where
  "round_half_even y =
     (let f = \<lfloor>y\<rfloor>; d = y - of_int f
      in if d < 1 / 2 then f else if 1 / 2 < d then f + 1
         else if even f then f else f + 1)"

definition float32_exponent :: "real \<Rightarrow> int" where
  "float32_exponent x = max \<lfloor>log 2 \<bar>x\<bar>\<rfloor> (- 126)"

definition float32 :: "real \<Rightarrow> real" where
  "float32 x =
     (let q = 2 powr of_int (float32_exponent x - 23)
      in of_int (round_half_even (x / q)) * q)"

text \<open>
  What the table holds of a row handed to \<open>add_point\<close>, and the table after the rows
  \<open>vs\<close> have been written: \<open>geom_vertex_table vs\<close> is the vertex table of the Geom that
  \<open>get_uv_sphere_geom\<close> returns when its result is \<open>Inr (vs, ts)\<close>.
\<close>

definition stored_row :: "point3 \<Rightarrow> point3" where
  "stored_row p = (case p of (x, y, z) \<Rightarrow> (float32 x, float32 y, float32 z))"

definition geom_vertex_table :: "point3 list \<Rightarrow> point3 list" where
  "geom_vertex_table vs = map stored_row vs"

text \<open>The single-precision numbers are the numbers that the rounding leaves as they are.\<close>

definition single_precision :: "real \<Rightarrow> bool" where
  "single_precision x = (float32 x = x)"

section \<open>modelgen/uvsphereegg.py\<close>

text \<open>
  The vertex pool and the polygons belong to Panda3D, which is not part of this
  repository. The pool is modelled as the list of the positions given to
  \<open>makeNewVertex\<close>, in creation order, and the handle that \<open>makeNewVertex\<close> returns as
  the position of the new vertex in that list. A polygon is the list of the handles
  passed to its \<open>addVertex\<close>, and the egg data keeps its polygons in the order of
  \<open>addChild\<close>. A position is a \<open>Point3D\<close>, three doubles, so the pool keeps the Python
  floats it is given as they are.
\<close>

datatype coordinate_system = CSZupRight

record egg_state =
  vpool :: "point3 list"
  polys :: "nat list list"
  current_ring_vertices :: "nat list"
  previous_ring_vertices :: "nat list"

record egg_data =
  egg_coordinate_system :: coordinate_system
  egg_vertex_pool :: "point3 list"
  egg_polygons :: "nat list list"

definition makeNewVertex :: "point3 \<Rightarrow> egg_state \<Rightarrow> nat \<times> egg_state" where
  "makeNewVertex p st = (length (vpool st), st\<lparr>vpool := vpool st @ [p]\<rparr>)"

definition add_polygon :: "nat list \<Rightarrow> egg_state \<Rightarrow> egg_state" where
  "add_polygon vs st = st\<lparr>polys := polys st @ [vs]\<rparr>"

text \<open>
  Lines 160-169 and 221-230: \<open>extend\<close> consumes the generator expression, so each
  vertex is created and pushed on the deque in turn.
\<close>

definition egg_add_ring_vertices :: "nat \<Rightarrow> real \<Rightarrow> real \<Rightarrow> egg_state \<Rightarrow> egg_state" where
  "egg_add_ring_vertices no_of_segments segment_x segment_z st =
     fold (\<lambda>(ring_x, ring_y) s.
             let (v, s') = makeNewVertex (ring_x, ring_y, segment_z) s
             in s'\<lparr>current_ring_vertices :=
                    deque_extend no_of_segments (current_ring_vertices s') [v]\<rparr>)
          (yield_2d_circle_points (int no_of_segments) segment_x (0, 0)) st"

fun egg_first_ring_polys :: "nat \<Rightarrow> nat \<Rightarrow> egg_state \<Rightarrow> error + egg_state" where
  "egg_first_ring_polys first_vertex 0 st = Inr st"
| "egg_first_ring_polys first_vertex (Suc n) st =
     bind_err (deque_front (current_ring_vertices st)) (\<lambda>v_front.
     bind_err (deque_back (current_ring_vertices st)) (\<lambda>v_back.
       egg_first_ring_polys first_vertex n
         ((add_polygon [first_vertex, v_front, v_back] st)
            \<lparr>current_ring_vertices := deque_rotate_left (current_ring_vertices st)\<rparr>)))"

fun egg_ring_pair_polys :: "nat \<Rightarrow> egg_state \<Rightarrow> error + egg_state" where
  "egg_ring_pair_polys 0 st = Inr st"
| "egg_ring_pair_polys (Suc n) st =
     bind_err (deque_back (previous_ring_vertices st)) (\<lambda>vertex_a0.
     bind_err (deque_front (previous_ring_vertices st)) (\<lambda>vertex_a1.
     bind_err (deque_back (current_ring_vertices st)) (\<lambda>vertex_b0.
     bind_err (deque_front (current_ring_vertices st)) (\<lambda>vertex_b1.
       egg_ring_pair_polys n
         ((add_polygon [vertex_b1, vertex_a0, vertex_a1]
            (add_polygon [vertex_a0, vertex_b1, vertex_b0] st))
            \<lparr>previous_ring_vertices := deque_rotate_left (previous_ring_vertices st),
             current_ring_vertices := deque_rotate_left (current_ring_vertices st)\<rparr>)))))"

fun egg_last_ring_polys :: "nat \<Rightarrow> nat \<Rightarrow> egg_state \<Rightarrow> error + egg_state" where
  "egg_last_ring_polys last_vertex 0 st = Inr st"
| "egg_last_ring_polys last_vertex (Suc n) st =
     bind_err (deque_back (previous_ring_vertices st)) (\<lambda>v_back.
     bind_err (deque_front (previous_ring_vertices st)) (\<lambda>v_front.
       egg_last_ring_polys last_vertex n
         ((add_polygon [last_vertex, v_back, v_front] st)
            \<lparr>previous_ring_vertices := deque_rotate_left (previous_ring_vertices st)\<rparr>)))"

definition egg_ring_body ::
  "real \<Rightarrow> nat \<Rightarrow> nat \<Rightarrow> nat \<Rightarrow> real \<Rightarrow> real \<Rightarrow> egg_state \<Rightarrow> error + egg_state" where
  "egg_ring_body radius no_of_segments no_of_rings ring_index segment_x segment_z st =
     (let first_ring_index = 0;
          last_ring_index = no_of_rings - 1
      in
      if ring_index = first_ring_index then
        (let (first_vertex, st1) = makeNewVertex (0, 0, 0) st;
             st2 = egg_add_ring_vertices no_of_segments segment_x segment_z st1
         in bind_err (egg_first_ring_polys first_vertex no_of_segments st2) (\<lambda>st3.
              Inr (st3\<lparr>previous_ring_vertices :=
                     deque_extend no_of_segments (previous_ring_vertices st3)
                       (current_ring_vertices st3)\<rparr>)))
      else
        (let st1 = egg_add_ring_vertices no_of_segments segment_x segment_z st
         in bind_err (egg_ring_pair_polys no_of_segments st1) (\<lambda>st2.
            let st3 = st2\<lparr>previous_ring_vertices :=
                        deque_extend no_of_segments (previous_ring_vertices st2)
                          (current_ring_vertices st2)\<rparr>
            in if ring_index = last_ring_index then
                 (let (last_vertex, st4) = makeNewVertex (0, 0, radius * 2) st3
                  in egg_last_ring_polys last_vertex no_of_segments st4)
               else Inr st3)))"

fun egg_ring_loop ::
  "real \<Rightarrow> nat \<Rightarrow> nat \<Rightarrow> (nat \<times> point2) list \<Rightarrow> egg_state \<Rightarrow> error + egg_state" where
  "egg_ring_loop radius no_of_segments no_of_rings [] st = Inr st"
| "egg_ring_loop radius no_of_segments no_of_rings ((ring_index, (segment_x, segment_z)) # rest) st =
     bind_err (egg_ring_body radius no_of_segments no_of_rings ring_index segment_x segment_z st)
       (egg_ring_loop radius no_of_segments no_of_rings rest)"

definition egg_init :: egg_state where
  "egg_init = \<lparr>vpool = [], polys = [], current_ring_vertices = [], previous_ring_vertices = []\<rparr>"

definition get_uv_sphere_egg_data :: "real \<Rightarrow> int \<Rightarrow> int \<Rightarrow> error + egg_data" where
  "get_uv_sphere_egg_data radius no_of_segments no_of_rings =
     (if radius \<le> 0 then Inl ValueError
      else if no_of_segments < 3 then Inl ValueError
      else if no_of_rings < 3 then Inl ValueError
      else
        bind_err (segment_points_xz radius no_of_rings) (\<lambda>pts.
        bind_err (egg_ring_loop radius (nat no_of_segments) (nat no_of_rings)
                    (List.enumerate 0 pts) egg_init) (\<lambda>st.
          Inr \<lparr>egg_coordinate_system = CSZupRight,
               egg_vertex_pool = vpool st,
               egg_polygons = polys st\<rparr>)))"

section \<open>The traversal as the specification words it\<close>

text \<open>
  The index formula of the flat form, and the ring traversal of the specification
  over two windows that hold a ring's identities: \<open>front\<close> is the first element,
  \<open>back\<close> the last, and one rotation step moves the front to the back.
\<close>

definition spec_south_pole :: nat where
  "spec_south_pole = 0"

definition spec_north_pole :: "nat \<Rightarrow> nat \<Rightarrow> nat" where
  "spec_north_pole segments rings = 1 + rings * segments"

definition spec_identity :: "nat \<Rightarrow> nat \<Rightarrow> nat \<Rightarrow> nat" where
  "spec_identity segments r s = 1 + r * segments + s"

definition spec_ring :: "nat \<Rightarrow> nat \<Rightarrow> nat list" where
  "spec_ring segments r = map (spec_identity segments r) [0..<segments]"

fun spec_south_fan :: "nat \<Rightarrow> nat \<Rightarrow> nat list \<Rightarrow> tri list" where
  "spec_south_fan 0 pole current = []"
| "spec_south_fan (Suc n) pole current =
     (pole, hd current, last current) # spec_south_fan n pole (rotate1 current)"

fun spec_bridge :: "nat \<Rightarrow> nat list \<Rightarrow> nat list \<Rightarrow> tri list" where
  "spec_bridge 0 previous current = []"
| "spec_bridge (Suc n) previous current =
     (last previous, hd current, last current) #
     (hd current, last previous, hd previous) #
     spec_bridge n (rotate1 previous) (rotate1 current)"

fun spec_north_fan :: "nat \<Rightarrow> nat \<Rightarrow> nat list \<Rightarrow> tri list" where
  "spec_north_fan 0 pole previous = []"
| "spec_north_fan (Suc n) pole previous =
     (pole, last previous, hd previous) # spec_north_fan n pole (rotate1 previous)"

definition spec_traversal :: "nat \<Rightarrow> nat \<Rightarrow> tri list" where
  "spec_traversal segments rings =
     spec_south_fan segments spec_south_pole (spec_ring segments 0) @
     concat (map (\<lambda>r. spec_bridge segments (spec_ring segments (r - 1)) (spec_ring segments r))
                 [1..<rings]) @
     spec_north_fan segments (spec_north_pole segments rings) (spec_ring segments (rings - 1))"

text \<open>
  The position of ring \<open>r\<close>, position \<open>s\<close>: the meridian sample \<open>r + 1\<close> gives the
  ring's planar radius and height, the circle sampler the horizontal position.
\<close>

definition meridian_angle :: "nat \<Rightarrow> nat \<Rightarrow> real" where
  "meridian_angle rings r = plus_angle_radians (int rings + 2) 270 True (1/2) (r + 1)"

definition ring_position :: "real \<Rightarrow> nat \<Rightarrow> nat \<Rightarrow> nat \<Rightarrow> nat \<Rightarrow> point3" where
  "ring_position radius segments rings r s =
     (let segment_x = radius * cos (meridian_angle rings r) + 0;
          segment_z = radius * sin (meridian_angle rings r) + radius;
          angle_radians = (real s / real segments) * tau
      in (segment_x * cos angle_radians + 0, segment_x * sin angle_radians + 0, segment_z))"

text \<open>
  The angle of sample \<open>i\<close> of the arc sampler as the specification words it: the start
  angle plus \<open>(i / divisor) * proportion * 2 * pi\<close>, and that angle wrapped modulo
  \<open>2 * pi\<close>.
\<close>

definition unwrapped_angle :: "int \<Rightarrow> real \<Rightarrow> bool \<Rightarrow> real \<Rightarrow> nat \<Rightarrow> real" where
  "unwrapped_angle quantity start_degrees include_last circle_proportion i =
     ((py_mod start_degrees 360) / 360) * (2 * pi) +
     (real i / real_of_int (if include_last then quantity - 1 else quantity)) *
       circle_proportion * (2 * pi)"

definition spec_arc_angle :: "int \<Rightarrow> real \<Rightarrow> bool \<Rightarrow> real \<Rightarrow> nat \<Rightarrow> real" where
  "spec_arc_angle quantity start_degrees include_last circle_proportion i =
     py_mod (unwrapped_angle quantity start_degrees include_last circle_proportion i) (2 * pi)"

section \<open>Geometry and topology of a triangle list\<close>






text \<open>The three edges of a triangle, and the triangles of a list that hold an edge.\<close>

definition tri_edges :: "tri \<Rightarrow> (nat \<times> nat) list" where
  "tri_edges t = (case t of (a, b, c) \<Rightarrow> [(a, b), (b, c), (c, a)])"

definition has_edge :: "nat \<Rightarrow> nat \<Rightarrow> tri \<Rightarrow> bool" where
  "has_edge u v t = ((u, v) \<in> set (tri_edges t) \<or> (v, u) \<in> set (tri_edges t))"

definition edge_count :: "tri list \<Rightarrow> nat \<Rightarrow> nat \<Rightarrow> nat" where
  "edge_count ts u v = length (filter (has_edge u v) ts)"


text \<open>
  The surface constraint of a vertex at height \<open>h\<close> and planar distance \<open>d\<close> from the
  vertical axis.
\<close>

definition on_sphere :: "real \<Rightarrow> point3 \<Rightarrow> bool" where
  "on_sphere radius p =
     (case p of (x, y, h) \<Rightarrow>
        let d = sqrt (x\<^sup>2 + y\<^sup>2) in d\<^sup>2 + (h - radius)\<^sup>2 = radius\<^sup>2)"

section \<open>Closed forms\<close>

text \<open>
  Names for the pieces of the result: the points of one ring, the triangles between
  ring \<open>r - 1\<close> and ring \<open>r\<close>, the meridian sample of ring \<open>r\<close>, the
  whole vertex table, and a polygon's vertex list for an index triple.
\<close>

definition ring_points :: "nat \<Rightarrow> real \<Rightarrow> real \<Rightarrow> point3 list" where
  "ring_points no_of_segments segment_x segment_z =
     map (\<lambda>(ring_x, ring_y). (ring_x, ring_y, segment_z))
         (yield_2d_circle_points (int no_of_segments) segment_x (0, 0))"

definition bridge_tris :: "nat \<Rightarrow> nat \<Rightarrow> tri list" where
  "bridge_tris n r = spec_bridge n (spec_ring n (r - 1)) (spec_ring n r)"

definition meridian_point :: "real \<Rightarrow> nat \<Rightarrow> nat \<Rightarrow> point2" where
  "meridian_point radius rings r =
     (radius * cos (meridian_angle rings r) + 0, radius * sin (meridian_angle rings r) + radius)"

definition sphere_points :: "real \<Rightarrow> nat \<Rightarrow> nat \<Rightarrow> point3 list" where
  "sphere_points radius n rings =
     (0, 0, 0) # concat (map (\<lambda>r. map (ring_position radius n rings r) [0..<n]) [0..<rings])
       @ [(0, 0, radius * 2)]"

definition poly_of_tri :: "tri \<Rightarrow> nat list" where
  "poly_of_tri t = (case t of (a, b, c) \<Rightarrow> [a, b, c])"



text \<open>
  The vertices by what they are rather than by their index: the two poles and position
  \<open>s\<close> of ring \<open>r\<close>. At step \<open>k\<close> of a rotation loop the front of a window holds
  position \<open>k\<close> of its ring and the back holds position \<open>back_pos n k\<close>, the one
  before it around the ring. The faces below are the triangles of the traversal in
  these terms, in the order in which they are emitted.
\<close>

datatype vertex = South | Ring nat nat | North

type_synonym face = "vertex \<times> vertex \<times> vertex"

definition back_pos :: "nat \<Rightarrow> nat \<Rightarrow> nat" where
  "back_pos n k = (k + (n - 1)) mod n"

definition south_face :: "nat \<Rightarrow> nat \<Rightarrow> face" where
  "south_face n k = (South, Ring 0 k, Ring 0 (back_pos n k))"

definition bridge_face1 :: "nat \<Rightarrow> nat \<Rightarrow> nat \<Rightarrow> face" where
  "bridge_face1 n r k = (Ring (r - 1) (back_pos n k), Ring r k, Ring r (back_pos n k))"

definition bridge_face2 :: "nat \<Rightarrow> nat \<Rightarrow> nat \<Rightarrow> face" where
  "bridge_face2 n r k = (Ring r k, Ring (r - 1) (back_pos n k), Ring (r - 1) k)"

definition north_face :: "nat \<Rightarrow> nat \<Rightarrow> nat \<Rightarrow> face" where
  "north_face n m k = (North, Ring (m - 1) (back_pos n k), Ring (m - 1) k)"

definition bridge_faces :: "nat \<Rightarrow> nat \<Rightarrow> face list" where
  "bridge_faces n r = concat (map (\<lambda>k. [bridge_face1 n r k, bridge_face2 n r k]) [0..<n])"

definition sphere_faces :: "nat \<Rightarrow> nat \<Rightarrow> face list" where
  "sphere_faces n m =
     map (south_face n) [0..<n] @ concat (map (bridge_faces n) [1..<m]) @
     map (north_face n m) [0..<n]"

fun vertex_index :: "nat \<Rightarrow> nat \<Rightarrow> vertex \<Rightarrow> nat" where
  "vertex_index n m South = 0"
| "vertex_index n m (Ring r s) = 1 + r * n + s"
| "vertex_index n m North = 1 + m * n"

definition face_tri :: "nat \<Rightarrow> nat \<Rightarrow> face \<Rightarrow> tri" where
  "face_tri n m f = (case f of (a, b, c) \<Rightarrow>
     (vertex_index n m a, vertex_index n m b, vertex_index n m c))"


fun valid_vertex :: "nat \<Rightarrow> nat \<Rightarrow> vertex \<Rightarrow> bool" where
  "valid_vertex n m South = True"
| "valid_vertex n m (Ring r s) = (r < m \<and> s < n)"
| "valid_vertex n m North = True"

definition valid_face :: "nat \<Rightarrow> nat \<Rightarrow> face \<Rightarrow> bool" where
  "valid_face n m f = (case f of (a, b, c) \<Rightarrow>
     valid_vertex n m a \<and> valid_vertex n m b \<and> valid_vertex n m c)"

text \<open>The edges of a face and the number of faces of the sphere that hold an edge.\<close>

definition face_edges :: "face \<Rightarrow> (vertex \<times> vertex) list" where
  "face_edges f = (case f of (a, b, c) \<Rightarrow> [(a, b), (b, c), (c, a)])"

definition face_has_edge :: "vertex \<Rightarrow> vertex \<Rightarrow> face \<Rightarrow> bool" where
  "face_has_edge u v f = ((u, v) \<in> set (face_edges f) \<or> (v, u) \<in> set (face_edges f))"

definition face_edge_count :: "nat \<Rightarrow> nat \<Rightarrow> vertex \<Rightarrow> vertex \<Rightarrow> nat" where
  "face_edge_count n m u v = length (filter (face_has_edge u v) (sphere_faces n m))"

section \<open>Basic facts\<close>

lemma bind_err_Inr [simp]: "bind_err (Inr x) f = f x"
  by (simp add: bind_err_def)

lemma bind_err_Inl [simp]: "bind_err (Inl e) f = Inl e"
  by (simp add: bind_err_def)

lemma deque_extend_full: "length xs = n \<Longrightarrow> deque_extend n d xs = xs"
  by (simp add: deque_extend_def)

lemma deque_front_hd: "d \<noteq> [] \<Longrightarrow> deque_front d = Inr (hd d)"
  by (cases d) (simp_all add: deque_front_def)

lemma deque_back_last: "d \<noteq> [] \<Longrightarrow> deque_back d = Inr (last d)"
  by (simp add: deque_back_def)

lemma fold_add_point_eq:
  "fold (\<lambda>(ring_x, ring_y). add_point (ring_x, ring_y, z)) ps st =
     st\<lparr>points := points st @ map (\<lambda>(ring_x, ring_y). (ring_x, ring_y, z)) ps\<rparr>"
  by (induction ps arbitrary: st) (auto simp: add_point_def)

section \<open>The flat-form generator in closed form\<close>

lemma first_ring_tris_eq:
  "current_ring_indices st \<noteq> [] \<Longrightarrow>
   first_ring_tris n st =
     Inr (st\<lparr>tris := tris st @ spec_south_fan n 0 (current_ring_indices st),
            current_ring_indices := rotate n (current_ring_indices st)\<rparr>)"
proof (induction n arbitrary: st)
  case 0
  then show ?case by simp
next
  case (Suc n)
  let ?st' = "(add_tri_points_indices 0 (hd (current_ring_indices st)) (last (current_ring_indices st)) st)
            \<lparr>current_ring_indices := deque_rotate_left (current_ring_indices st)\<rparr>"
  have ne: "current_ring_indices ?st' \<noteq> []"
    using Suc.prems by (simp add: deque_rotate_left_def)
  show ?case
    using Suc.prems Suc.IH [OF ne]
    by (simp add: deque_front_hd deque_back_last add_tri_points_indices_def
        deque_rotate_left_def rotate1_rotate_swap)
qed

lemma ring_pair_tris_eq:
  "current_ring_indices st \<noteq> [] \<Longrightarrow> previous_ring_indices st \<noteq> [] \<Longrightarrow>
   ring_pair_tris n st =
     Inr (st\<lparr>tris := tris st @ spec_bridge n (previous_ring_indices st) (current_ring_indices st),
            current_ring_indices := rotate n (current_ring_indices st),
            previous_ring_indices := rotate n (previous_ring_indices st)\<rparr>)"
proof (induction n arbitrary: st)
  case 0
  then show ?case by simp
next
  case (Suc n)
  let ?a0 = "last (previous_ring_indices st)" and ?a1 = "hd (previous_ring_indices st)"
  let ?b0 = "last (current_ring_indices st)" and ?b1 = "hd (current_ring_indices st)"
  let ?st' = "(add_tri_points_indices ?b1 ?a0 ?a1 (add_tri_points_indices ?a0 ?b1 ?b0 st))
            \<lparr>previous_ring_indices := deque_rotate_left (previous_ring_indices st),
             current_ring_indices := deque_rotate_left (current_ring_indices st)\<rparr>"
  have ne: "current_ring_indices ?st' \<noteq> []" "previous_ring_indices ?st' \<noteq> []"
    using Suc.prems by (simp_all add: deque_rotate_left_def add_tri_points_indices_def)
  show ?case
    using Suc.prems Suc.IH [OF ne]
    by (simp add: deque_front_hd deque_back_last add_tri_points_indices_def
        deque_rotate_left_def rotate1_rotate_swap)
qed

lemma last_ring_tris_eq:
  "previous_ring_indices st \<noteq> [] \<Longrightarrow>
   last_ring_tris pole n st =
     Inr (st\<lparr>tris := tris st @ spec_north_fan n pole (previous_ring_indices st),
            previous_ring_indices := rotate n (previous_ring_indices st)\<rparr>)"
proof (induction n arbitrary: st)
  case 0
  then show ?case by simp
next
  case (Suc n)
  let ?st' = "(add_tri_points_indices pole (last (previous_ring_indices st)) (hd (previous_ring_indices st)) st)
            \<lparr>previous_ring_indices := deque_rotate_left (previous_ring_indices st)\<rparr>"
  have ne: "previous_ring_indices ?st' \<noteq> []"
    using Suc.prems by (simp add: deque_rotate_left_def add_tri_points_indices_def)
  show ?case
    using Suc.prems Suc.IH [OF ne]
    by (simp add: deque_front_hd deque_back_last add_tri_points_indices_def
        deque_rotate_left_def rotate1_rotate_swap)
qed

lemma add_ring_points_eq:
  "add_ring_points (int n) x z st = st\<lparr>points := points st @ ring_points n x z\<rparr>"
  by (simp add: add_ring_points_def ring_points_def fold_add_point_eq)

lemma spec_ring_upt: "[r * n + 1..<r * n + 1 + n] = spec_ring n r"
proof -
  have "spec_ring n r = map (\<lambda>s. s + (r * n + 1)) [0..<n]"
    unfolding spec_ring_def by (rule map_cong) (simp_all add: spec_identity_def)
  also have "\<dots> = [r * n + 1..<n + (r * n + 1)]" by (rule map_add_upt)
  also have "n + (r * n + 1) = r * n + 1 + n" by (rule add.commute)
  finally show ?thesis by (rule sym)
qed

lemma spec_ring_upt0: "[1..<n + 1] = spec_ring n 0"
  using spec_ring_upt [of 0 n] by simp

lemma length_spec_ring [simp]: "length (spec_ring n r) = n"
  by (simp add: spec_ring_def)

lemma spec_ring_nonempty: "0 < n \<Longrightarrow> spec_ring n r \<noteq> []"
  by (simp add: spec_ring_def)

lemma rotate_full: "rotate (length xs) xs = xs"
  by (simp add: rotate_id)

lemma rotate_spec_ring [simp]: "rotate n (spec_ring n r) = spec_ring n r"
  using rotate_full [of "spec_ring n r"] by simp

lemma ring_body_first:
  assumes "0 < n"
  shows "ring_body radius n rings 0 x z st =
     Inr (st\<lparr>points := points st @ (0, 0, 0) # ring_points n x z,
            tris := tris st @ spec_south_fan n 0 (spec_ring n 0),
            current_ring_indices := spec_ring n 0,
            previous_ring_indices := spec_ring n 0\<rparr>)"
proof -
  have ne: "spec_ring n 0 \<noteq> []" using assms by (rule spec_ring_nonempty)
  have rot: "rotate n (spec_ring n 0) = spec_ring n 0"
    using rotate_full [of "spec_ring n 0"] by simp
  show ?thesis
    unfolding ring_body_def Let_def spec_ring_upt0
    by (simp add: add_ring_points_eq add_point_def deque_extend_full
        first_ring_tris_eq ne rot)
qed

lemma ring_body_middle:
  assumes "0 < n" "0 < r" "r \<noteq> rings - 1" "length (previous_ring_indices st) = n"
  shows "ring_body radius n rings r x z st =
     Inr (st\<lparr>points := points st @ ring_points n x z,
            tris := tris st @ spec_bridge n (previous_ring_indices st) (spec_ring n r),
            current_ring_indices := spec_ring n r,
            previous_ring_indices := spec_ring n r\<rparr>)"
proof -
  have ne: "spec_ring n r \<noteq> []" using assms(1) by (rule spec_ring_nonempty)
  have pne: "previous_ring_indices st \<noteq> []" using assms(1,4) by auto
  have rot: "rotate n (spec_ring n r) = spec_ring n r"
    using rotate_full [of "spec_ring n r"] by simp
  show ?thesis
    unfolding ring_body_def Let_def spec_ring_upt
    using assms(2,3)
    by (simp add: add_ring_points_eq deque_extend_full
        ring_pair_tris_eq ne pne rot)
qed

lemma ring_body_last:
  assumes "0 < n" "0 < r" "r = rings - 1" "length (previous_ring_indices st) = n"
  shows "ring_body radius n rings r x z st =
     Inr (st\<lparr>points := points st @ ring_points n x z @ [(0, 0, radius * 2)],
            tris := tris st @ spec_bridge n (previous_ring_indices st) (spec_ring n r)
                     @ spec_north_fan n (2 + n * rings - 1) (spec_ring n r),
            current_ring_indices := spec_ring n r,
            previous_ring_indices := spec_ring n r\<rparr>)"
proof -
  have ne: "\<And>k. spec_ring n k \<noteq> []" using assms(1) by (rule spec_ring_nonempty)
  have pne: "previous_ring_indices st \<noteq> []" using assms(1,4) by auto
  show ?thesis
    unfolding ring_body_def Let_def spec_ring_upt
    using assms(2,3)
    by (simp add: add_ring_points_eq deque_extend_full
        ring_pair_tris_eq last_ring_tris_eq add_point_def ne pne)
qed

lemma ring_loop_append:
  "ring_loop radius n rings (xs @ ys) st =
     bind_err (ring_loop radius n rings xs st) (ring_loop radius n rings ys)"
proof (induction xs arbitrary: st)
  case Nil
  then show ?case by simp
next
  case (Cons a xs)
  obtain r x z where a: "a = (r, (x, z))" by (metis prod.exhaust)
  show ?case
    by (cases "ring_body radius n rings r x z st") (simp_all add: a Cons.IH)
qed

lemma ring_loop_middle:
  assumes "0 < n"
  shows "0 < r0 \<Longrightarrow> r0 + length pts \<le> rings - 1 \<Longrightarrow>
         previous_ring_indices st = spec_ring n (r0 - 1) \<Longrightarrow>
         \<exists>st'. ring_loop radius n rings (List.enumerate r0 pts) st = Inr st' \<and>
           points st' = points st @ concat (map (\<lambda>(x, z). ring_points n x z) pts) \<and>
           tris st' = tris st @ concat (map (bridge_tris n) [r0..<r0 + length pts]) \<and>
           previous_ring_indices st' = spec_ring n (r0 + length pts - 1)"
proof (induction pts arbitrary: r0 st)
  case Nil
  then show ?case by simp
next
  case (Cons p pts)
  obtain x z where p: "p = (x, z)" by (cases p)
  let ?st1 = "st\<lparr>points := points st @ ring_points n x z,
            tris := tris st @ spec_bridge n (previous_ring_indices st) (spec_ring n r0),
            current_ring_indices := spec_ring n r0,
            previous_ring_indices := spec_ring n r0\<rparr>"
  have body: "ring_body radius n rings r0 x z st = Inr ?st1"
    using Cons.prems assms by (intro ring_body_middle) auto
  have "\<exists>st'. ring_loop radius n rings (List.enumerate (Suc r0) pts) ?st1 = Inr st' \<and>
           points st' = points ?st1 @ concat (map (\<lambda>(x, z). ring_points n x z) pts) \<and>
           tris st' = tris ?st1 @ concat (map (bridge_tris n) [Suc r0..<Suc r0 + length pts]) \<and>
           previous_ring_indices st' = spec_ring n (Suc r0 + length pts - 1)"
    using Cons.prems by (intro Cons.IH) auto
  then obtain st' where st':
    "ring_loop radius n rings (List.enumerate (Suc r0) pts) ?st1 = Inr st'"
    "points st' = points ?st1 @ concat (map (\<lambda>(x, z). ring_points n x z) pts)"
    "tris st' = tris ?st1 @ concat (map (bridge_tris n) [Suc r0..<Suc r0 + length pts])"
    "previous_ring_indices st' = spec_ring n (Suc r0 + length pts - 1)"
    by blast
  have upt: "[r0..<r0 + length (p # pts)] = r0 # [Suc r0..<Suc r0 + length pts]"
    by (simp add: upt_rec)
  have bt: "spec_bridge n (previous_ring_indices st) (spec_ring n r0) = bridge_tris n r0"
    using Cons.prems(3) by (simp add: bridge_tris_def)
  have len: "r0 + length (p # pts) - 1 = Suc r0 + length pts - 1"
    by simp
  have "ring_loop radius n rings (List.enumerate r0 (p # pts)) st = Inr st'"
    by (simp add: p body st'(1))
  moreover have "points st' = points st @ concat (map (\<lambda>(x, z). ring_points n x z) (p # pts))"
    by (simp add: st'(2) p)
  moreover have "tris st' = tris st @ concat (map (bridge_tris n) [r0..<r0 + length (p # pts)])"
    unfolding upt by (simp add: st'(3) bt del: upt_Suc)
  moreover have "previous_ring_indices st' = spec_ring n (r0 + length (p # pts) - 1)"
    unfolding len by (fact st'(4))
  ultimately show ?case by (intro exI [of _ st'] conjI)
qed

lemma spec_traversal_split:
  assumes "2 \<le> rings"
  shows "spec_traversal n rings =
     spec_south_fan n 0 (spec_ring n 0) @
     concat (map (bridge_tris n) [1..<rings - 1]) @
     bridge_tris n (rings - 1) @
     spec_north_fan n (1 + rings * n) (spec_ring n (rings - 1))"
proof -
  obtain k where k: "rings = Suc (Suc k)"
    using assms by (metis Suc_le_D numeral_2_eq_2 Suc_le_mono)
  have "[1..<rings] = [1..<rings - 1] @ [rings - 1]"
    by (simp add: k)
  then show ?thesis
    unfolding spec_traversal_def spec_south_pole_def spec_north_pole_def bridge_tris_def [abs_def]
    by simp
qed

lemma ring_loop_all:
  assumes n: "0 < n" and rings: "2 \<le> rings" and len: "length pts = rings"
  shows "\<exists>st'. ring_loop radius n rings (List.enumerate 0 pts) geom_init = Inr st' \<and>
           points st' = (0, 0, 0) # concat (map (\<lambda>(x, z). ring_points n x z) pts)
                          @ [(0, 0, radius * 2)] \<and>
           tris st' = spec_traversal n rings"
proof -
  obtain p0 rest where pts: "pts = p0 # rest" using len rings by (cases pts) auto
  have "rest \<noteq> []" using len rings pts by auto
  then obtain mid pl where rest: "rest = mid @ [pl]" by (metis rev_exhaust)
  obtain x0 z0 where p0: "p0 = (x0, z0)" by (cases p0)
  obtain xl zl where pl: "pl = (xl, zl)" by (cases pl)
  have lmid: "length mid = rings - 2" using len pts rest by simp
  let ?st0 = "geom_init\<lparr>points := points geom_init @ (0, 0, 0) # ring_points n x0 z0,
            tris := tris geom_init @ spec_south_fan n 0 (spec_ring n 0),
            current_ring_indices := spec_ring n 0,
            previous_ring_indices := spec_ring n 0\<rparr>"
  have b0: "ring_body radius n rings 0 x0 z0 geom_init = Inr ?st0"
    using n by (rule ring_body_first)
  have "\<exists>st'. ring_loop radius n rings (List.enumerate 1 mid) ?st0 = Inr st' \<and>
           points st' = points ?st0 @ concat (map (\<lambda>(x, z). ring_points n x z) mid) \<and>
           tris st' = tris ?st0 @ concat (map (bridge_tris n) [1..<1 + length mid]) \<and>
           previous_ring_indices st' = spec_ring n (1 + length mid - 1)"
    using lmid rings by (intro ring_loop_middle [OF n]) simp_all
  then obtain st1 where st1:
    "ring_loop radius n rings (List.enumerate 1 mid) ?st0 = Inr st1"
    "points st1 = points ?st0 @ concat (map (\<lambda>(x, z). ring_points n x z) mid)"
    "tris st1 = tris ?st0 @ concat (map (bridge_tris n) [1..<1 + length mid])"
    "previous_ring_indices st1 = spec_ring n (1 + length mid - 1)"
    by blast
  let ?st2 = "st1\<lparr>points := points st1 @ ring_points n xl zl @ [(0, 0, radius * 2)],
            tris := tris st1 @ spec_bridge n (previous_ring_indices st1) (spec_ring n (rings - 1))
                     @ spec_north_fan n (2 + n * rings - 1) (spec_ring n (rings - 1)),
            current_ring_indices := spec_ring n (rings - 1),
            previous_ring_indices := spec_ring n (rings - 1)\<rparr>"
  have bl: "ring_body radius n rings (rings - 1) xl zl st1 = Inr ?st2"
    using n rings st1(4) by (intro ring_body_last) auto
  have enum: "List.enumerate 0 pts =
      (0, (x0, z0)) # List.enumerate 1 mid @ [(rings - 1, (xl, zl))]"
    using lmid rings by (simp add: pts rest p0 pl enumerate_append_eq)
  have loop1: "ring_loop radius n rings (List.enumerate (Suc 0) mid) ?st0 = Inr st1"
    using st1(1) by simp
  have bl1: "ring_body radius n rings (rings - Suc 0) xl zl st1 = Inr ?st2"
    using bl by simp
  have loop: "ring_loop radius n rings (List.enumerate 0 pts) geom_init = Inr ?st2"
    unfolding enum by (simp only: ring_loop.simps ring_loop_append b0 loop1 bl1
        bind_err_Inr append_Cons append_Nil One_nat_def)
  have "1 + length mid - 1 = rings - 1 - 1"
    using lmid by arith
  then have prev1: "previous_ring_indices st1 = spec_ring n (rings - 1 - 1)"
    using st1(4) by (simp only:)
  have "1 + length mid = rings - 1"
    using lmid rings by arith
  then have mid_upt: "[1..<1 + length mid] = [1..<rings - 1]"
    by (simp only:)
  have e1: "tris ?st2 = tris st1 @ spec_bridge n (previous_ring_indices st1) (spec_ring n (rings - 1))
                     @ spec_north_fan n (2 + n * rings - 1) (spec_ring n (rings - 1))"
    by simp
  have e2: "tris st1 = spec_south_fan n 0 (spec_ring n 0) @ concat (map (bridge_tris n) [1..<rings - 1])"
    unfolding st1(3) mid_upt by (simp add: geom_init_def del: upt_Suc)
  have e3: "spec_bridge n (previous_ring_indices st1) (spec_ring n (rings - 1)) = bridge_tris n (rings - 1)"
    unfolding prev1 bridge_tris_def ..
  have e4: "2 + n * rings - 1 = 1 + rings * n"
    by (simp add: mult.commute)
  have t: "tris ?st2 = spec_traversal n rings"
    unfolding spec_traversal_split [OF rings] e1 e2 e3 e4 by simp
  have p: "points ?st2 = (0, 0, 0) # concat (map (\<lambda>(x, z). ring_points n x z) pts)
                          @ [(0, 0, radius * 2)]"
    by (simp add: st1(2) pts rest p0 pl geom_init_def)
  show ?thesis by (rule exI [of _ ?st2], intro conjI) (fact loop, fact p, fact t)
qed

lemma segment_points_xz_eq:
  "segment_points_xz radius (int m) = Inr (map (meridian_point radius m) [0..<m])"
proof -
  define f :: "nat \<Rightarrow> point2" where "f = (\<lambda>point_index.
      let angle_radians = plus_angle_radians (int m + 2) 270 True (1/2) point_index;
          x = radius * cos angle_radians; y = radius * sin angle_radians
      in (x + fst (0::real, radius), y + snd (0::real, radius)))"
  have div: "plus_divisor (int m + 2) True \<noteq> 0"
    by (simp add: plus_divisor_def)
  have y: "yield_2d_circle_points_plus (int m + 2) radius 270 True (1/2) (0, radius) =
      Inr (map f [0..<m + 2])"
    using div by (simp add: yield_2d_circle_points_plus_def nat_add_distrib f_def)
  have "islice (map f [0..<m + 2]) 1 (nat (int m + 2 - 1)) = map f [1..<m + 1]"
    by (simp add: islice_def take_map drop_map nat_add_distrib del: upt_Suc)
  also have "\<dots> = map (f \<circ> Suc) [0..<m]"
    using map_Suc_upt [of 0 m] by (simp del: upt_Suc add: map_map [symmetric] del: map_map)
  also have "f \<circ> Suc = meridian_point radius m"
    by (rule ext) (simp add: meridian_point_def meridian_angle_def Let_def f_def)
  finally show ?thesis
    by (simp add: segment_points_xz_def Let_def y)
qed

lemma ring_points_meridian:
  "(\<lambda>(x, z). ring_points n x z) (meridian_point radius m r) =
     map (ring_position radius n m r) [0..<n]"
  by (simp add: ring_points_def meridian_point_def yield_2d_circle_points_def
      ring_position_def Let_def)

lemma length_ring_row [simp]: "length (map (ring_position radius n m r) [0..<n]) = n"
  by simp

lemma geom_closed_form:
  assumes "0 < radius" "3 \<le> no_of_segments" "3 \<le> no_of_rings"
  shows "get_uv_sphere_geom radius no_of_segments no_of_rings =
           Inr (sphere_points radius (nat no_of_segments) (nat no_of_rings),
                spec_traversal (nat no_of_segments) (nat no_of_rings))"
proof -
  define n where "n = nat no_of_segments"
  define m where "m = nat no_of_rings"
  have n: "0 < n" and m: "2 \<le> m" and mi: "no_of_rings = int m"
    using assms by (simp_all add: n_def m_def)
  let ?pts = "map (meridian_point radius m) [0..<m]"
  have seg: "segment_points_xz radius no_of_rings = Inr ?pts"
    unfolding mi by (rule segment_points_xz_eq)
  obtain st' where st':
    "ring_loop radius n m (List.enumerate 0 ?pts) geom_init = Inr st'"
    "points st' = (0, 0, 0) # concat (map (\<lambda>(x, z). ring_points n x z) ?pts)
                          @ [(0, 0, radius * 2)]"
    "tris st' = spec_traversal n m"
    using ring_loop_all [OF n m, of ?pts radius] by auto
  have "map (\<lambda>(x, z). ring_points n x z) ?pts =
          map (\<lambda>r. map (ring_position radius n m r) [0..<n]) [0..<m]"
    by (simp add: ring_points_meridian comp_def)
  then have p: "points st' = sphere_points radius n m"
    by (simp only: st'(2) sphere_points_def)
  show ?thesis
    using assms
    by (simp add: get_uv_sphere_geom_def seg st'(1) p st'(3) n_def [symmetric] m_def [symmetric])
qed

section \<open>Counts, and the rows by index\<close>

lemma length_concat_uniform:
  "(\<And>xs. xs \<in> set xss \<Longrightarrow> length xs = n) \<Longrightarrow> length (concat xss) = length xss * n"
  by (induction xss) auto

lemma nth_concat_uniform:
  "(\<And>xs. xs \<in> set xss \<Longrightarrow> length xs = n) \<Longrightarrow> i < length xss \<Longrightarrow> j < n \<Longrightarrow>
     concat xss ! (i * n + j) = xss ! i ! j"
proof (induction xss arbitrary: i)
  case Nil
  then show ?case by simp
next
  case (Cons xs xss)
  have lx: "length xs = n" using Cons.prems(1) by simp
  show ?case
  proof (cases i)
    case 0
    then show ?thesis using Cons.prems(3) lx by (simp add: nth_append)
  next
    case (Suc k)
    have "concat xss ! (k * n + j) = xss ! k ! j"
      using Cons.prems Suc by (intro Cons.IH) auto
    moreover have "Suc k * n + j = n + (k * n + j)" by simp
    ultimately show ?thesis
      using lx Suc by (simp add: nth_append del: mult_Suc)
  qed
qed

lemma length_concat_map_uniform:
  "(\<And>x. x \<in> set xs \<Longrightarrow> length (f x) = n) \<Longrightarrow> length (concat (map f xs)) = length xs * n"
  using length_concat_uniform [of "map f xs" n] by auto

lemma nth_concat_map_uniform:
  "(\<And>x. x \<in> set xs \<Longrightarrow> length (f x) = n) \<Longrightarrow> i < length xs \<Longrightarrow> j < n \<Longrightarrow>
     concat (map f xs) ! (i * n + j) = f (xs ! i) ! j"
  using nth_concat_uniform [of "map f xs" n i j] by auto

lemma length_spec_south_fan [simp]: "length (spec_south_fan k pole w) = k"
  by (induction k arbitrary: w) auto

lemma length_spec_bridge [simp]: "length (spec_bridge k p c) = 2 * k"
  by (induction k arbitrary: p c) auto

lemma length_spec_north_fan [simp]: "length (spec_north_fan k pole w) = k"
  by (induction k arbitrary: w) auto

lemma length_spec_traversal:
  assumes "1 \<le> m"
  shows "length (spec_traversal n m) = 2 * n * m"
proof -
  have "length (concat (map (\<lambda>r. spec_bridge n (spec_ring n (r - 1)) (spec_ring n r)) [1..<m]))
          = length [1..<m] * (2 * n)"
    by (rule length_concat_map_uniform) auto
  then have "length (spec_traversal n m) = n + (m - 1) * (2 * n) + n"
    by (simp add: spec_traversal_def)
  also have "\<dots> = 2 * n * m"
    using assms by (cases m) simp_all
  finally show ?thesis .
qed

lemma length_sphere_points: "length (sphere_points radius n m) = n * m + 2"
proof -
  have "length (concat (map (\<lambda>r. map (ring_position radius n m r) [0..<n]) [0..<m]))
          = length [0..<m] * n"
    by (rule length_concat_map_uniform) auto
  then show ?thesis by (simp add: sphere_points_def mult.commute)
qed

lemma sphere_points_south: "sphere_points radius n m ! 0 = (0, 0, 0)"
  by (simp add: sphere_points_def)

lemma sphere_points_ring:
  assumes "r < m" "s < n"
  shows "sphere_points radius n m ! (1 + r * n + s) = ring_position radius n m r s"
proof -
  let ?rows = "map (\<lambda>r. map (ring_position radius n m r) [0..<n]) [0..<m]"
  have len: "length (concat ?rows) = length ?rows * n"
    by (rule length_concat_uniform) auto
  have "r * n + s < m * n"
  proof -
    have "r * n + s < r * n + n" using assms(2) by simp
    also have "\<dots> = Suc r * n" by simp
    also have "\<dots> \<le> m * n" using assms(1) by (intro mult_le_mono1) simp
    finally show ?thesis .
  qed
  then have lt: "r * n + s < length (concat ?rows)" using len by simp
  have "concat ?rows ! (r * n + s) = map (ring_position radius n m ([0..<m] ! r)) [0..<n] ! s"
    using assms by (intro nth_concat_map_uniform) auto
  also have "\<dots> = ring_position radius n m r s"
    using assms by simp
  finally show ?thesis
    using lt by (simp add: sphere_points_def nth_append)
qed

lemma sphere_points_north: "sphere_points radius n m ! (1 + m * n) = (0, 0, radius * 2)"
proof -
  have "length (concat (map (\<lambda>r. map (ring_position radius n m r) [0..<n]) [0..<m]))
          = length [0..<m] * n"
    by (rule length_concat_map_uniform) auto
  then show ?thesis by (simp add: sphere_points_def nth_append)
qed

section \<open>The egg generator in closed form\<close>

lemma deque_extend_append_aux:
  "drop (length (drop (length l - n) l @ ys) - n) (drop (length l - n) l @ ys) =
     drop (length l + length ys - n) (l @ ys)"
proof (cases "length l \<le> n")
  case True
  then show ?thesis by simp
next
  case False
  define k where "k = length l - n"
  have k: "k \<le> length l" "length l - k = n" "length l + length ys - n = length ys + k"
    using False by (simp_all add: k_def)
  have "drop (length (drop k l @ ys) - n) (drop k l @ ys) = drop (length ys) (drop k l @ ys)"
    using k by simp
  also have "\<dots> = drop (length ys) (drop k (l @ ys))"
    using k(1) by simp
  also have "\<dots> = drop (length ys + k) (l @ ys)"
    by (rule drop_drop)
  finally show ?thesis
    unfolding k_def [symmetric] k(3) .
qed

lemma deque_extend_append:
  "deque_extend n (deque_extend n d xs) ys = deque_extend n d (xs @ ys)"
  unfolding deque_extend_def Let_def
  using deque_extend_append_aux [of "d @ xs" n ys]
  by (simp only: append_assoc length_append add.assoc)

lemma length_deque_extend: "length (deque_extend n d xs) \<le> n"
  by (simp add: deque_extend_def Let_def)

lemma deque_extend_Nil: "length d \<le> n \<Longrightarrow> deque_extend n d [] = d"
  by (simp add: deque_extend_def)

lemma egg_fold_vertices:
  "length (current_ring_vertices st) \<le> n \<Longrightarrow>
   fold (\<lambda>(ring_x, ring_y) s.
             let (v, s') = makeNewVertex (ring_x, ring_y, z) s
             in s'\<lparr>current_ring_vertices := deque_extend n (current_ring_vertices s') [v]\<rparr>)
        ps st =
     st\<lparr>vpool := vpool st @ map (\<lambda>(ring_x, ring_y). (ring_x, ring_y, z)) ps,
        current_ring_vertices :=
          deque_extend n (current_ring_vertices st)
            [length (vpool st)..<length (vpool st) + length ps]\<rparr>"
proof (induction ps arbitrary: st)
  case Nil
  then show ?case by (simp add: deque_extend_Nil)
next
  case (Cons p ps)
  obtain x y where p: "p = (x, y)" by (cases p)
  define F where "F = (\<lambda>(ring_x, ring_y) s.
             let (v, s') = makeNewVertex (ring_x, ring_y, z) s
             in s'\<lparr>current_ring_vertices := deque_extend n (current_ring_vertices s') [v]\<rparr>)"
  let ?st1 = "st\<lparr>vpool := vpool st @ [(x, y, z)],
      current_ring_vertices := deque_extend n (current_ring_vertices st) [length (vpool st)]\<rparr>"
  have step: "F p st = ?st1"
    by (simp add: F_def p makeNewVertex_def)
  have upt: "[length (vpool st)..<length (vpool st) + length (p # ps)] =
      [length (vpool st)] @ [Suc (length (vpool st))..<Suc (length (vpool st)) + length ps]"
    by (simp add: upt_rec)
  have le: "length (current_ring_vertices ?st1) \<le> n"
    by (simp add: length_deque_extend)
  have "fold F (p # ps) st = fold F ps ?st1"
    by (simp add: step)
  also have "\<dots> = ?st1\<lparr>vpool := vpool ?st1 @ map (\<lambda>(ring_x, ring_y). (ring_x, ring_y, z)) ps,
        current_ring_vertices :=
          deque_extend n (current_ring_vertices ?st1)
            [length (vpool ?st1)..<length (vpool ?st1) + length ps]\<rparr>"
    unfolding F_def by (rule Cons.IH [OF le])
  also have "\<dots> = st\<lparr>vpool := vpool st @ map (\<lambda>(ring_x, ring_y). (ring_x, ring_y, z)) (p # ps),
        current_ring_vertices :=
          deque_extend n (current_ring_vertices st)
            [length (vpool st)..<length (vpool st) + length (p # ps)]\<rparr>"
    unfolding upt by (simp add: p deque_extend_append del: upt_Suc)
  finally show ?case unfolding F_def .
qed

lemma egg_add_ring_vertices_eq:
  "length (current_ring_vertices st) \<le> n \<Longrightarrow> egg_add_ring_vertices n x z st =
     st\<lparr>vpool := vpool st @ ring_points n x z,
        current_ring_vertices := [length (vpool st)..<length (vpool st) + n]\<rparr>"
proof -
  have len: "length (yield_2d_circle_points (int n) x (0, 0)) = n"
    by (simp add: yield_2d_circle_points_def)
  assume le: "length (current_ring_vertices st) \<le> n"
  show ?thesis
    unfolding egg_add_ring_vertices_def egg_fold_vertices [OF le] len ring_points_def
    by (simp add: deque_extend_full)
qed

lemma egg_first_ring_polys_eq:
  "current_ring_vertices st \<noteq> [] \<Longrightarrow>
   egg_first_ring_polys pole n st =
     Inr (st\<lparr>polys := polys st @ map poly_of_tri (spec_south_fan n pole (current_ring_vertices st)),
            current_ring_vertices := rotate n (current_ring_vertices st)\<rparr>)"
proof (induction n arbitrary: st)
  case 0
  then show ?case by simp
next
  case (Suc n)
  let ?st' = "(add_polygon [pole, hd (current_ring_vertices st), last (current_ring_vertices st)] st)
            \<lparr>current_ring_vertices := deque_rotate_left (current_ring_vertices st)\<rparr>"
  have ne: "current_ring_vertices ?st' \<noteq> []"
    using Suc.prems by (simp add: deque_rotate_left_def)
  show ?case
    using Suc.prems Suc.IH [OF ne]
    by (simp add: deque_front_hd deque_back_last add_polygon_def poly_of_tri_def
        deque_rotate_left_def rotate1_rotate_swap)
qed

lemma egg_ring_pair_polys_eq:
  "current_ring_vertices st \<noteq> [] \<Longrightarrow> previous_ring_vertices st \<noteq> [] \<Longrightarrow>
   egg_ring_pair_polys n st =
     Inr (st\<lparr>polys := polys st @
              map poly_of_tri (spec_bridge n (previous_ring_vertices st) (current_ring_vertices st)),
            current_ring_vertices := rotate n (current_ring_vertices st),
            previous_ring_vertices := rotate n (previous_ring_vertices st)\<rparr>)"
proof (induction n arbitrary: st)
  case 0
  then show ?case by simp
next
  case (Suc n)
  let ?a0 = "last (previous_ring_vertices st)" and ?a1 = "hd (previous_ring_vertices st)"
  let ?b0 = "last (current_ring_vertices st)" and ?b1 = "hd (current_ring_vertices st)"
  let ?st' = "(add_polygon [?b1, ?a0, ?a1] (add_polygon [?a0, ?b1, ?b0] st))
            \<lparr>previous_ring_vertices := deque_rotate_left (previous_ring_vertices st),
             current_ring_vertices := deque_rotate_left (current_ring_vertices st)\<rparr>"
  have ne: "current_ring_vertices ?st' \<noteq> []" "previous_ring_vertices ?st' \<noteq> []"
    using Suc.prems by (simp_all add: deque_rotate_left_def add_polygon_def)
  show ?case
    using Suc.prems Suc.IH [OF ne]
    by (simp add: deque_front_hd deque_back_last add_polygon_def poly_of_tri_def
        deque_rotate_left_def rotate1_rotate_swap)
qed

lemma egg_last_ring_polys_eq:
  "previous_ring_vertices st \<noteq> [] \<Longrightarrow>
   egg_last_ring_polys pole n st =
     Inr (st\<lparr>polys := polys st @ map poly_of_tri (spec_north_fan n pole (previous_ring_vertices st)),
            previous_ring_vertices := rotate n (previous_ring_vertices st)\<rparr>)"
proof (induction n arbitrary: st)
  case 0
  then show ?case by simp
next
  case (Suc n)
  let ?st' = "(add_polygon [pole, last (previous_ring_vertices st), hd (previous_ring_vertices st)] st)
            \<lparr>previous_ring_vertices := deque_rotate_left (previous_ring_vertices st)\<rparr>"
  have ne: "previous_ring_vertices ?st' \<noteq> []"
    using Suc.prems by (simp add: deque_rotate_left_def add_polygon_def)
  show ?case
    using Suc.prems Suc.IH [OF ne]
    by (simp add: deque_front_hd deque_back_last add_polygon_def poly_of_tri_def
        deque_rotate_left_def rotate1_rotate_swap)
qed

lemma egg_ring_body_first:
  assumes "0 < n" "vpool st = []" "length (current_ring_vertices st) \<le> n"
  shows "egg_ring_body radius n rings 0 x z st =
     Inr (st\<lparr>vpool := (0, 0, 0) # ring_points n x z,
            polys := polys st @ map poly_of_tri (spec_south_fan n 0 (spec_ring n 0)),
            current_ring_vertices := spec_ring n 0,
            previous_ring_vertices := spec_ring n 0\<rparr>)"
proof -
  let ?st1 = "st\<lparr>vpool := vpool st @ [(0, 0, 0)]\<rparr>"
  have mk: "makeNewVertex (0, 0, 0) st = (0, ?st1)"
    using assms(2) by (simp add: makeNewVertex_def)
  have le: "length (current_ring_vertices ?st1) \<le> n" using assms(3) by simp
  have ring: "egg_add_ring_vertices n x z ?st1 =
      ?st1\<lparr>vpool := vpool ?st1 @ ring_points n x z, current_ring_vertices := spec_ring n 0\<rparr>"
    unfolding egg_add_ring_vertices_eq [OF le]
    using assms(2) spec_ring_upt0 [of n] by simp
  have ne: "spec_ring n 0 \<noteq> []" using assms(1) by (rule spec_ring_nonempty)
  show ?thesis
    unfolding egg_ring_body_def Let_def mk prod.case ring
    using assms(2)
    by (simp add: egg_first_ring_polys_eq ne deque_extend_full)
qed

lemma egg_ring_body_middle:
  assumes "0 < n" "0 < r" "r \<noteq> rings - 1" "length (vpool st) = r * n + 1"
    "length (previous_ring_vertices st) = n" "length (current_ring_vertices st) \<le> n"
  shows "egg_ring_body radius n rings r x z st =
     Inr (st\<lparr>vpool := vpool st @ ring_points n x z,
            polys := polys st @
              map poly_of_tri (spec_bridge n (previous_ring_vertices st) (spec_ring n r)),
            current_ring_vertices := spec_ring n r,
            previous_ring_vertices := spec_ring n r\<rparr>)"
proof -
  have ring: "egg_add_ring_vertices n x z st =
      st\<lparr>vpool := vpool st @ ring_points n x z, current_ring_vertices := spec_ring n r\<rparr>"
    unfolding egg_add_ring_vertices_eq [OF assms(6)] assms(4) spec_ring_upt ..
  have ne: "\<And>k. spec_ring n k \<noteq> []" using assms(1) by (rule spec_ring_nonempty)
  have pne: "previous_ring_vertices st \<noteq> []" using assms(1,5) by auto
  show ?thesis
    unfolding egg_ring_body_def Let_def ring
    using assms(2,3)
    by (simp add: egg_ring_pair_polys_eq ne pne deque_extend_full)
qed

lemma length_ring_points [simp]: "length (ring_points n x z) = n"
  by (simp add: ring_points_def yield_2d_circle_points_def)

lemma egg_ring_body_last:
  assumes "0 < n" "0 < r" "r = rings - 1" "length (vpool st) = r * n + 1"
    "length (previous_ring_vertices st) = n" "length (current_ring_vertices st) \<le> n"
  shows "egg_ring_body radius n rings r x z st =
     Inr (st\<lparr>vpool := vpool st @ ring_points n x z @ [(0, 0, radius * 2)],
            polys := polys st @
              map poly_of_tri (spec_bridge n (previous_ring_vertices st) (spec_ring n r)
                 @ spec_north_fan n (1 + rings * n) (spec_ring n r)),
            current_ring_vertices := spec_ring n r,
            previous_ring_vertices := spec_ring n r\<rparr>)"
proof -
  have ring: "egg_add_ring_vertices n x z st =
      st\<lparr>vpool := vpool st @ ring_points n x z, current_ring_vertices := spec_ring n r\<rparr>"
    unfolding egg_add_ring_vertices_eq [OF assms(6)] assms(4) spec_ring_upt ..
  have ne: "\<And>k. spec_ring n k \<noteq> []" using assms(1) by (rule spec_ring_nonempty)
  have pne: "previous_ring_vertices st \<noteq> []" using assms(1,5) by auto
  have "rings = Suc r" using assms(2,3) by simp
  then have north: "r * n + 1 + n = 1 + rings * n" by simp
  have "egg_ring_body radius n rings r x z st =
     Inr (st\<lparr>vpool := vpool st @ ring_points n x z @ [(0, 0, radius * 2)],
            polys := polys st @
              map poly_of_tri (spec_bridge n (previous_ring_vertices st) (spec_ring n r)
                 @ spec_north_fan n (r * n + 1 + n) (spec_ring n r)),
            current_ring_vertices := spec_ring n r,
            previous_ring_vertices := spec_ring n r\<rparr>)"
    unfolding egg_ring_body_def Let_def ring
    using assms(2) assms(3) [symmetric] assms(4)
    by (simp add: egg_ring_pair_polys_eq egg_last_ring_polys_eq makeNewVertex_def ne pne
        deque_extend_full)
  then show ?thesis unfolding north .
qed

lemma egg_ring_loop_append:
  "egg_ring_loop radius n rings (xs @ ys) st =
     bind_err (egg_ring_loop radius n rings xs st) (egg_ring_loop radius n rings ys)"
proof (induction xs arbitrary: st)
  case Nil
  then show ?case by simp
next
  case (Cons a xs)
  obtain r x z where a: "a = (r, (x, z))" by (metis prod.exhaust)
  show ?case
    by (cases "egg_ring_body radius n rings r x z st") (simp_all add: a Cons.IH)
qed

lemma egg_ring_loop_middle:
  assumes "0 < n"
  shows "0 < r0 \<Longrightarrow> r0 + length pts \<le> rings - 1 \<Longrightarrow>
         previous_ring_vertices st = spec_ring n (r0 - 1) \<Longrightarrow>
         length (current_ring_vertices st) \<le> n \<Longrightarrow>
         length (vpool st) = r0 * n + 1 \<Longrightarrow>
         \<exists>st'. egg_ring_loop radius n rings (List.enumerate r0 pts) st = Inr st' \<and>
           vpool st' = vpool st @ concat (map (\<lambda>(x, z). ring_points n x z) pts) \<and>
           polys st' = polys st @
              map poly_of_tri (concat (map (bridge_tris n) [r0..<r0 + length pts])) \<and>
           previous_ring_vertices st' = spec_ring n (r0 + length pts - 1) \<and>
           length (current_ring_vertices st') \<le> n \<and>
           length (vpool st') = (r0 + length pts) * n + 1"
proof (induction pts arbitrary: r0 st)
  case Nil
  then show ?case by simp
next
  case (Cons p pts)
  obtain x z where p: "p = (x, z)" by (cases p)
  let ?st1 = "st\<lparr>vpool := vpool st @ ring_points n x z,
            polys := polys st @
              map poly_of_tri (spec_bridge n (previous_ring_vertices st) (spec_ring n r0)),
            current_ring_vertices := spec_ring n r0,
            previous_ring_vertices := spec_ring n r0\<rparr>"
  have body: "egg_ring_body radius n rings r0 x z st = Inr ?st1"
    using Cons.prems assms by (intro egg_ring_body_middle) auto
  have "\<exists>st'. egg_ring_loop radius n rings (List.enumerate (Suc r0) pts) ?st1 = Inr st' \<and>
           vpool st' = vpool ?st1 @ concat (map (\<lambda>(x, z). ring_points n x z) pts) \<and>
           polys st' = polys ?st1 @
              map poly_of_tri (concat (map (bridge_tris n) [Suc r0..<Suc r0 + length pts])) \<and>
           previous_ring_vertices st' = spec_ring n (Suc r0 + length pts - 1) \<and>
           length (current_ring_vertices st') \<le> n \<and>
           length (vpool st') = (Suc r0 + length pts) * n + 1"
    using Cons.prems by (intro Cons.IH) auto
  then obtain st' where st':
    "egg_ring_loop radius n rings (List.enumerate (Suc r0) pts) ?st1 = Inr st'"
    "vpool st' = vpool ?st1 @ concat (map (\<lambda>(x, z). ring_points n x z) pts)"
    "polys st' = polys ?st1 @
              map poly_of_tri (concat (map (bridge_tris n) [Suc r0..<Suc r0 + length pts]))"
    "previous_ring_vertices st' = spec_ring n (Suc r0 + length pts - 1)"
    "length (current_ring_vertices st') \<le> n"
    "length (vpool st') = (Suc r0 + length pts) * n + 1"
    by blast
  have upt: "[r0..<r0 + length (p # pts)] = r0 # [Suc r0..<Suc r0 + length pts]"
    by (simp add: upt_rec)
  have bt: "spec_bridge n (previous_ring_vertices st) (spec_ring n r0) = bridge_tris n r0"
    using Cons.prems(3) by (simp add: bridge_tris_def)
  have len: "r0 + length (p # pts) = Suc r0 + length pts"
    by simp
  have "egg_ring_loop radius n rings (List.enumerate r0 (p # pts)) st = Inr st'"
    by (simp add: p body st'(1))
  moreover have "vpool st' = vpool st @ concat (map (\<lambda>(x, z). ring_points n x z) (p # pts))"
    by (simp add: st'(2) p)
  moreover have "polys st' = polys st @
      map poly_of_tri (concat (map (bridge_tris n) [r0..<r0 + length (p # pts)]))"
    unfolding upt by (simp add: st'(3) bt del: upt_Suc)
  moreover have "previous_ring_vertices st' = spec_ring n (r0 + length (p # pts) - 1)"
    unfolding len by (fact st'(4))
  moreover have "length (vpool st') = (r0 + length (p # pts)) * n + 1"
    unfolding len by (fact st'(6))
  ultimately show ?case using st'(5) by (intro exI [of _ st'] conjI)
qed

lemma egg_ring_loop_all:
  assumes n: "0 < n" and rings: "2 \<le> rings" and len: "length pts = rings"
  shows "\<exists>st'. egg_ring_loop radius n rings (List.enumerate 0 pts) egg_init = Inr st' \<and>
           vpool st' = (0, 0, 0) # concat (map (\<lambda>(x, z). ring_points n x z) pts)
                          @ [(0, 0, radius * 2)] \<and>
           polys st' = map poly_of_tri (spec_traversal n rings)"
proof -
  obtain p0 rest where pts: "pts = p0 # rest" using len rings by (cases pts) auto
  have "rest \<noteq> []" using len rings pts by auto
  then obtain mid pl where rest: "rest = mid @ [pl]" by (metis rev_exhaust)
  obtain x0 z0 where p0: "p0 = (x0, z0)" by (cases p0)
  obtain xl zl where pl: "pl = (xl, zl)" by (cases pl)
  have lmid: "length mid = rings - 2" using len pts rest by simp
  let ?st0 = "egg_init\<lparr>vpool := (0, 0, 0) # ring_points n x0 z0,
            polys := polys egg_init @ map poly_of_tri (spec_south_fan n 0 (spec_ring n 0)),
            current_ring_vertices := spec_ring n 0,
            previous_ring_vertices := spec_ring n 0\<rparr>"
  have b0: "egg_ring_body radius n rings 0 x0 z0 egg_init = Inr ?st0"
    using n by (intro egg_ring_body_first) (simp_all add: egg_init_def)
  have "\<exists>st'. egg_ring_loop radius n rings (List.enumerate 1 mid) ?st0 = Inr st' \<and>
           vpool st' = vpool ?st0 @ concat (map (\<lambda>(x, z). ring_points n x z) mid) \<and>
           polys st' = polys ?st0 @
              map poly_of_tri (concat (map (bridge_tris n) [1..<1 + length mid])) \<and>
           previous_ring_vertices st' = spec_ring n (1 + length mid - 1) \<and>
           length (current_ring_vertices st') \<le> n \<and>
           length (vpool st') = (1 + length mid) * n + 1"
    using lmid rings by (intro egg_ring_loop_middle [OF n]) simp_all
  then obtain st1 where st1:
    "egg_ring_loop radius n rings (List.enumerate 1 mid) ?st0 = Inr st1"
    "vpool st1 = vpool ?st0 @ concat (map (\<lambda>(x, z). ring_points n x z) mid)"
    "polys st1 = polys ?st0 @
              map poly_of_tri (concat (map (bridge_tris n) [1..<1 + length mid]))"
    "previous_ring_vertices st1 = spec_ring n (1 + length mid - 1)"
    "length (current_ring_vertices st1) \<le> n"
    "length (vpool st1) = (1 + length mid) * n + 1"
    by blast
  have m1: "1 + length mid = rings - 1"
    using lmid rings by arith
  let ?st2 = "st1\<lparr>vpool := vpool st1 @ ring_points n xl zl @ [(0, 0, radius * 2)],
            polys := polys st1 @
              map poly_of_tri (spec_bridge n (previous_ring_vertices st1) (spec_ring n (rings - 1))
                 @ spec_north_fan n (1 + rings * n) (spec_ring n (rings - 1))),
            current_ring_vertices := spec_ring n (rings - 1),
            previous_ring_vertices := spec_ring n (rings - 1)\<rparr>"
  have bl: "egg_ring_body radius n rings (rings - 1) xl zl st1 = Inr ?st2"
    using n rings st1(4,5,6) unfolding m1 by (intro egg_ring_body_last) auto
  have enum: "List.enumerate 0 pts =
      (0, (x0, z0)) # List.enumerate 1 mid @ [(rings - 1, (xl, zl))]"
    using lmid rings by (simp add: pts rest p0 pl enumerate_append_eq)
  have loop1: "egg_ring_loop radius n rings (List.enumerate (Suc 0) mid) ?st0 = Inr st1"
    using st1(1) by simp
  have bl1: "egg_ring_body radius n rings (rings - Suc 0) xl zl st1 = Inr ?st2"
    using bl by simp
  have loop: "egg_ring_loop radius n rings (List.enumerate 0 pts) egg_init = Inr ?st2"
    unfolding enum by (simp only: egg_ring_loop.simps egg_ring_loop_append b0 loop1 bl1
        bind_err_Inr append_Cons append_Nil One_nat_def)
  have "1 + length mid - 1 = rings - 1 - 1"
    using lmid by arith
  then have prev1: "previous_ring_vertices st1 = spec_ring n (rings - 1 - 1)"
    using st1(4) by (simp only:)
  have mid_upt: "[1..<1 + length mid] = [1..<rings - 1]"
    using m1 by (simp only:)
  have e1: "polys ?st2 = polys st1 @
              map poly_of_tri (spec_bridge n (previous_ring_vertices st1) (spec_ring n (rings - 1))
                 @ spec_north_fan n (1 + rings * n) (spec_ring n (rings - 1)))"
    by simp
  have e2: "polys st1 = map poly_of_tri (spec_south_fan n 0 (spec_ring n 0) @
       concat (map (bridge_tris n) [1..<rings - 1]))"
    unfolding st1(3) mid_upt by (simp add: egg_init_def del: upt_Suc)
  have e3: "spec_bridge n (previous_ring_vertices st1) (spec_ring n (rings - 1)) = bridge_tris n (rings - 1)"
    unfolding prev1 bridge_tris_def ..
  have t: "polys ?st2 = map poly_of_tri (spec_traversal n rings)"
    unfolding spec_traversal_split [OF rings] e1 e2 e3 by simp
  have p: "vpool ?st2 = (0, 0, 0) # concat (map (\<lambda>(x, z). ring_points n x z) pts)
                          @ [(0, 0, radius * 2)]"
    by (simp add: st1(2) pts rest p0 pl)
  show ?thesis by (rule exI [of _ ?st2], intro conjI) (fact loop, fact p, fact t)
qed

lemma egg_closed_form:
  assumes "0 < radius" "3 \<le> no_of_segments" "3 \<le> no_of_rings"
  shows "get_uv_sphere_egg_data radius no_of_segments no_of_rings =
           Inr \<lparr>egg_coordinate_system = CSZupRight,
                egg_vertex_pool = sphere_points radius (nat no_of_segments) (nat no_of_rings),
                egg_polygons =
                  map poly_of_tri (spec_traversal (nat no_of_segments) (nat no_of_rings))\<rparr>"
proof -
  define n where "n = nat no_of_segments"
  define m where "m = nat no_of_rings"
  have n: "0 < n" and m: "2 \<le> m" and mi: "no_of_rings = int m"
    using assms by (simp_all add: n_def m_def)
  let ?pts = "map (meridian_point radius m) [0..<m]"
  have seg: "segment_points_xz radius no_of_rings = Inr ?pts"
    unfolding mi by (rule segment_points_xz_eq)
  obtain st' where st':
    "egg_ring_loop radius n m (List.enumerate 0 ?pts) egg_init = Inr st'"
    "vpool st' = (0, 0, 0) # concat (map (\<lambda>(x, z). ring_points n x z) ?pts)
                          @ [(0, 0, radius * 2)]"
    "polys st' = map poly_of_tri (spec_traversal n m)"
    using egg_ring_loop_all [OF n m, of ?pts radius] by auto
  have "map (\<lambda>(x, z). ring_points n x z) ?pts =
          map (\<lambda>r. map (ring_position radius n m r) [0..<n]) [0..<m]"
    by (simp add: ring_points_meridian comp_def)
  then have p: "vpool st' = sphere_points radius n m"
    by (simp only: st'(2) sphere_points_def)
  show ?thesis
    using assms
    by (simp add: get_uv_sphere_egg_data_def seg st'(1) p st'(3) n_def [symmetric] m_def [symmetric])
qed

section \<open>The smallest sphere\<close>

lemma spec_traversal_3_3:
  "spec_traversal 3 3 =
     [(0, 1, 3), (0, 2, 1), (0, 3, 2),
      (3, 4, 6), (4, 3, 1), (1, 5, 4), (5, 1, 2), (2, 6, 5), (6, 2, 3),
      (6, 7, 9), (7, 6, 4), (4, 8, 7), (8, 4, 5), (5, 9, 8), (9, 5, 6),
      (10, 9, 7), (10, 7, 8), (10, 8, 9)]"
  by code_simp

section \<open>The arc sampler\<close>

lemma py_mod_0: "py_mod 0 m = 0"
  by (simp add: py_mod_def)

lemma py_mod_small: "0 \<le> x \<Longrightarrow> x < m \<Longrightarrow> py_mod x m = x"
proof -
  assume a: "0 \<le> x" "x < m"
  then have "\<lfloor>x / m\<rfloor> = 0"
    by (intro floor_unique) (auto simp: field_simps)
  then show ?thesis by (simp add: py_mod_def)
qed

lemma py_mod_second: "m < x \<Longrightarrow> x < 2 * m \<Longrightarrow> py_mod x m = x - m"
proof -
  assume a: "m < x" "x < 2 * m"
  then have m: "0 < m" by linarith
  have "\<lfloor>x / m\<rfloor> = 1"
    using a m by (intro floor_unique) (auto simp: field_simps)
  then show ?thesis by (simp add: py_mod_def)
qed

section \<open>Ring points on the sphere\<close>

lemma ring_position_on_sphere: "on_sphere radius (ring_position radius n m r s)"
proof -
  define c where "c = cos (meridian_angle m r)"
  define z where "z = sin (meridian_angle m r)"
  define a where "a = cos (real s / real n * tau)"
  define b where "b = sin (real s / real n * tau)"
  have cz: "c\<^sup>2 + z\<^sup>2 = 1" unfolding c_def z_def by (simp add: add.commute)
  have ab: "a\<^sup>2 + b\<^sup>2 = 1" unfolding a_def b_def by (simp add: add.commute)
  have "(radius * c * a)\<^sup>2 + (radius * c * b)\<^sup>2 + (radius * z + radius - radius)\<^sup>2 =
        radius\<^sup>2 * (c\<^sup>2 * (a\<^sup>2 + b\<^sup>2) + z\<^sup>2)"
    by (simp add: power2_eq_square algebra_simps)
  also have "\<dots> = radius\<^sup>2" by (simp add: ab cz)
  finally have "(radius * c * a)\<^sup>2 + (radius * c * b)\<^sup>2 + (radius * z + radius - radius)\<^sup>2
      = radius\<^sup>2" .
  then show ?thesis
    by (simp add: on_sphere_def ring_position_def Let_def c_def z_def a_def b_def)
qed

lemma sphere_points_interior:
  assumes "0 < i" "i < length (sphere_points radius n m) - 1"
  shows "\<exists>r s. r < m \<and> s < n \<and> i = 1 + r * n + s \<and>
           sphere_points radius n m ! i = ring_position radius n m r s"
proof -
  have i: "i - 1 < n * m" using assms by (simp add: length_sphere_points)
  then have n: "0 < n" by (cases n) auto
  define r where "r = (i - 1) div n"
  define s where "s = (i - 1) mod n"
  have s: "s < n" using n by (simp add: s_def)
  have r: "r < m" using i n by (simp add: r_def less_mult_imp_div_less mult.commute)
  have "i - 1 = r * n + s" by (simp add: r_def s_def)
  then have e: "i = 1 + r * n + s" using assms(1) by simp
  show ?thesis
    using r s e sphere_points_ring [OF r s, of radius] by auto
qed

section \<open>The traversal over poles and ring positions\<close>

lemma rotate1_rotate: "rotate k (rotate1 w) = rotate (Suc k) w"
  by (simp add: rotate1_rotate_swap)

lemma spec_south_fan_map:
  "spec_south_fan j pole w = map (\<lambda>k. (pole, hd (rotate k w), last (rotate k w))) [0..<j]"
proof (induction j arbitrary: w)
  case 0
  then show ?case by simp
next
  case (Suc j)
  show ?case
    unfolding spec_south_fan.simps Suc.IH map_upt_Suc rotate1_rotate by simp
qed

lemma spec_north_fan_map:
  "spec_north_fan j pole w = map (\<lambda>k. (pole, last (rotate k w), hd (rotate k w))) [0..<j]"
proof (induction j arbitrary: w)
  case 0
  then show ?case by simp
next
  case (Suc j)
  show ?case
    unfolding spec_north_fan.simps Suc.IH map_upt_Suc rotate1_rotate by simp
qed

lemma spec_bridge_map:
  "spec_bridge j p c =
     concat (map (\<lambda>k. [(last (rotate k p), hd (rotate k c), last (rotate k c)),
                        (hd (rotate k c), last (rotate k p), hd (rotate k p))]) [0..<j])"
proof (induction j arbitrary: p c)
  case 0
  then show ?case by simp
next
  case (Suc j)
  show ?case
    unfolding spec_bridge.simps Suc.IH map_upt_Suc rotate1_rotate by simp
qed

lemma spec_ring_nth: "s < n \<Longrightarrow> spec_ring n r ! s = 1 + r * n + s"
  by (simp add: spec_ring_def spec_identity_def)

lemma back_pos_less: "0 < n \<Longrightarrow> back_pos n k < n"
  by (simp add: back_pos_def)

lemma hd_rotate_spec_ring:
  assumes "k < n"
  shows "hd (rotate k (spec_ring n r)) = 1 + r * n + k"
proof -
  have ne: "spec_ring n r \<noteq> []" using assms by (intro spec_ring_nonempty) simp
  show ?thesis
    using assms by (simp add: hd_rotate_conv_nth [OF ne] spec_ring_nth)
qed

lemma last_rotate_spec_ring:
  assumes "k < n"
  shows "last (rotate k (spec_ring n r)) = 1 + r * n + back_pos n k"
proof -
  have n: "0 < n" using assms by simp
  have ne: "rotate k (spec_ring n r) \<noteq> []"
    using n spec_ring_nonempty [OF n, of r] by simp
  have "last (rotate k (spec_ring n r)) = rotate k (spec_ring n r) ! (n - 1)"
    using last_conv_nth [OF ne] by simp
  also have "\<dots> = spec_ring n r ! ((k + (n - 1)) mod n)"
    using n by (simp add: nth_rotate)
  also have "\<dots> = 1 + r * n + back_pos n k"
    using back_pos_less [OF n, of k] by (simp add: spec_ring_nth back_pos_def)
  finally show ?thesis .
qed

lemma south_fan_faces:
  "spec_south_fan n 0 (spec_ring n 0) = map (face_tri n m) (map (south_face n) [0..<n])"
  unfolding spec_south_fan_map map_map
  by (rule map_cong)
    (simp_all add: hd_rotate_spec_ring last_rotate_spec_ring south_face_def face_tri_def)

lemma north_fan_faces:
  "0 < m \<Longrightarrow> spec_north_fan n (1 + m * n) (spec_ring n (m - 1)) =
     map (face_tri n m) (map (north_face n m) [0..<n])"
  unfolding spec_north_fan_map map_map
  by (rule map_cong)
    (simp_all add: hd_rotate_spec_ring last_rotate_spec_ring north_face_def face_tri_def)

lemma bridge_tris_faces:
  "bridge_tris n r = map (face_tri n m) (bridge_faces n r)"
proof -
  have h: "map (\<lambda>k. [(last (rotate k (spec_ring n (r - 1))), hd (rotate k (spec_ring n r)),
                    last (rotate k (spec_ring n r))),
                   (hd (rotate k (spec_ring n r)), last (rotate k (spec_ring n (r - 1))),
                    hd (rotate k (spec_ring n (r - 1))))]) [0..<n] =
        map (\<lambda>k. map (face_tri n m) [bridge_face1 n r k, bridge_face2 n r k]) [0..<n]"
    by (rule map_cong)
      (simp_all add: hd_rotate_spec_ring last_rotate_spec_ring bridge_face1_def
        bridge_face2_def face_tri_def)
  show ?thesis
    unfolding bridge_tris_def spec_bridge_map h bridge_faces_def
    by (simp add: map_concat comp_def)
qed

lemma spec_traversal_faces:
  assumes "0 < m"
  shows "spec_traversal n m = map (face_tri n m) (sphere_faces n m)"
proof -
  have b: "(\<lambda>r. spec_bridge n (spec_ring n (r - 1)) (spec_ring n r)) =
      (\<lambda>r. map (face_tri n m) (bridge_faces n r))"
    using bridge_tris_faces [of n _ m] by (simp add: bridge_tris_def)
  show ?thesis
    unfolding spec_traversal_def sphere_faces_def spec_south_pole_def spec_north_pole_def b
      south_fan_faces [of n m] north_fan_faces [OF assms, of n]
    by (simp add: map_concat comp_def)
qed

section \<open>Winding\<close>
















lemma back_pos_if: "k < n \<Longrightarrow> back_pos n k = (if k = 0 then n - 1 else k - 1)"
proof -
  assume k: "k < n"
  show ?thesis
  proof (cases "k = 0")
    case True
    then show ?thesis using k by (simp add: back_pos_def)
  next
    case False
    then have "k + (n - 1) = (k - 1) + n" using k by simp
    then have "back_pos n k = (k - 1) mod n" by (simp add: back_pos_def)
    then show ?thesis using False k by simp
  qed
qed


lemma set_bridge_faces:
  "set (bridge_faces n r) = {f. \<exists>k<n. f = bridge_face1 n r k \<or> f = bridge_face2 n r k}"
  by (auto simp: bridge_faces_def)

lemma set_sphere_faces:
  "set (sphere_faces n m) =
     {f. (\<exists>k<n. f = south_face n k) \<or>
         (\<exists>r k. 1 \<le> r \<and> r < m \<and> k < n \<and> (f = bridge_face1 n r k \<or> f = bridge_face2 n r k)) \<or>
         (\<exists>k<n. f = north_face n m k)}"
  unfolding sphere_faces_def set_append set_concat set_map image_image set_bridge_faces
  by (auto simp del: upt_Suc)







section \<open>Edges and the triangles that hold them\<close>

lemma ring_index_inject:
  fixes n :: nat
  assumes "s < n" "s' < n" "r * n + s = r' * n + s'"
  shows "r = r' \<and> s = s'"
proof -
  have "(r * n + s) div n = r" "(r' * n + s') div n = r'"
    using assms(1,2) by simp_all
  then have r: "r = r'" using assms(3) by simp
  then show ?thesis using assms(3) by simp
qed

lemma ring_index_less:
  fixes n :: nat
  assumes "r < m" "s < n"
  shows "r * n + s < m * n"
proof -
  have "r * n + s < r * n + n" using assms(2) by simp
  also have "\<dots> = Suc r * n" by simp
  also have "\<dots> \<le> m * n" using assms(1) by (intro mult_le_mono1) simp
  finally show ?thesis .
qed

lemma vertex_index_inject:
  assumes "valid_vertex n m a" "valid_vertex n m b"
  shows "vertex_index n m a = vertex_index n m b \<longleftrightarrow> a = b"
proof (cases a)
  case South
  then show ?thesis by (cases b) auto
next
  case (Ring r s)
  then have rs: "r < m" "s < n" using assms(1) by simp_all
  show ?thesis
  proof (cases b)
    case South
    then show ?thesis using Ring by simp
  next
    case (Ring r' s')
    then have "r' < m" "s' < n" using assms(2) by simp_all
    then show ?thesis
      using ring_index_inject [of s n s' r r'] rs \<open>a = Ring r s\<close> Ring by auto
  next
    case North
    then show ?thesis using ring_index_less [OF rs] \<open>a = Ring r s\<close> by simp
  qed
next
  case North
  show ?thesis
  proof (cases b)
    case South
    then show ?thesis using North by simp
  next
    case (Ring r' s')
    then have "r' < m" "s' < n" using assms(2) by simp_all
    then show ?thesis using ring_index_less [of r' m s' n] North Ring by simp
  next
    case North
    then show ?thesis using \<open>a = North\<close> by simp
  qed
qed

lemma has_edge_face_tri:
  assumes "valid_face n m f" "valid_vertex n m u" "valid_vertex n m v"
  shows "has_edge (vertex_index n m u) (vertex_index n m v) (face_tri n m f) =
           face_has_edge u v f"
proof -
  obtain a b c where f: "f = (a, b, c)" by (cases f)
  have v: "valid_vertex n m a" "valid_vertex n m b" "valid_vertex n m c"
    using assms(1) by (simp_all add: f valid_face_def)
  note inj = vertex_index_inject [OF assms(2)] vertex_index_inject [OF assms(3)]
  show ?thesis
    by (simp add: f has_edge_def face_has_edge_def tri_edges_def face_edges_def face_tri_def
        inj v del: vertex_index.simps)
qed

lemma edge_count_face_tris:
  assumes "\<And>f. f \<in> set fs \<Longrightarrow> valid_face n m f" "valid_vertex n m u" "valid_vertex n m v"
  shows "edge_count (map (face_tri n m) fs) (vertex_index n m u) (vertex_index n m v) =
           length (filter (face_has_edge u v) fs)"
proof -
  have "filter (has_edge (vertex_index n m u) (vertex_index n m v) \<circ> face_tri n m) fs =
        filter (face_has_edge u v) fs"
    by (rule filter_cong) (simp_all add: has_edge_face_tri assms)
  then show ?thesis
    by (simp add: edge_count_def filter_map)
qed

lemma length_filter_pairs:
  "length (filter P (concat (map (\<lambda>k. [f k, g k]) ks))) =
     length (filter (\<lambda>k. P (f k)) ks) + length (filter (\<lambda>k. P (g k)) ks)"
  by (induction ks) auto

lemma length_filter_upt: "length (filter Q [a..<b]) = card {k. a \<le> k \<and> k < b \<and> Q k}"
proof -
  have "length (filter Q [a..<b]) = card ({k. Q k} \<inter> set [a..<b])"
    by (rule distinct_length_filter) simp
  also have "{k. Q k} \<inter> set [a..<b] = {k. a \<le> k \<and> k < b \<and> Q k}" by auto
  finally show ?thesis .
qed

lemma length_filter_concat:
  "length (filter P (concat (map h rs))) = (\<Sum>r\<leftarrow>rs. length (filter P (h r)))"
  by (induction rs) auto

lemma sum_list_upt_delta:
  "(\<Sum>r\<leftarrow>[a..<b]. if r = r0 then c else 0) = (if a \<le> r0 \<and> r0 < b then c else (0::nat))"
proof -
  have "(\<Sum>r\<leftarrow>[a..<b]. if r = r0 then c else 0) = (\<Sum>r\<in>{a..<b}. if r = r0 then c else 0)"
    by (simp add: interv_sum_list_conv_sum_set_nat)
  also have "\<dots> = (if r0 \<in> {a..<b} then c else 0)"
    by (simp add: sum.delta)
  finally show ?thesis by simp
qed

lemma length_filter_bridge_faces:
  "length (filter P (bridge_faces n r)) =
     card {k. k < n \<and> P (bridge_face1 n r k)} + card {k. k < n \<and> P (bridge_face2 n r k)}"
  unfolding bridge_faces_def length_filter_pairs length_filter_upt by simp

lemma face_edge_count_split:
  "face_edge_count n m u v =
     card {k. k < n \<and> face_has_edge u v (south_face n k)} +
     (\<Sum>r\<leftarrow>[1..<m]. card {k. k < n \<and> face_has_edge u v (bridge_face1 n r k)} +
                    card {k. k < n \<and> face_has_edge u v (bridge_face2 n r k)}) +
     card {k. k < n \<and> face_has_edge u v (north_face n m k)}"
  unfolding face_edge_count_def sphere_faces_def filter_append length_append filter_map
    length_map length_filter_concat length_filter_bridge_faces comp_def length_filter_upt
  by simp

lemma face_has_edge_sym: "face_has_edge u v f = face_has_edge v u f"
  by (auto simp: face_has_edge_def)

lemma face_edge_count_sym: "face_edge_count n m u v = face_edge_count n m v u"
  unfolding face_edge_count_def using face_has_edge_sym [of u v] by presburger

lemmas edge_defs = face_has_edge_def face_edges_def south_face_def bridge_face1_def
  bridge_face2_def north_face_def

text \<open>Edges between the south pole and the first ring.\<close>

lemma e1_south:
  assumes "3 \<le> n" "j < n"
  shows "card {k. k < n \<and> face_has_edge South (Ring 0 j) (south_face n k)} = 2"
proof -
  have "{k. k < n \<and> face_has_edge South (Ring 0 j) (south_face n k)} =
      {j, if Suc j = n then 0 else Suc j}"
    using assms by (auto simp: edge_defs back_pos_if split: if_splits)
  then show ?thesis using assms by auto
qed

lemma e1_b1: "{k. k < n \<and> face_has_edge South (Ring 0 j) (bridge_face1 n r k)} = {}"
  by (auto simp: edge_defs)

lemma e1_b2: "{k. k < n \<and> face_has_edge South (Ring 0 j) (bridge_face2 n r k)} = {}"
  by (auto simp: edge_defs)

lemma e1_north: "{k. k < n \<and> face_has_edge South (Ring 0 j) (north_face n m k)} = {}"
  by (auto simp: edge_defs)

text \<open>Edges between the north pole and the last ring.\<close>

lemma e2_north:
  assumes "3 \<le> n" "j < n" "r0 = m - 1"
  shows "card {k. k < n \<and> face_has_edge North (Ring r0 j) (north_face n m k)} = 2"
proof -
  have "{k. k < n \<and> face_has_edge North (Ring r0 j) (north_face n m k)} =
      {j, if Suc j = n then 0 else Suc j}"
    using assms by (auto simp: edge_defs back_pos_if split: if_splits)
  then show ?thesis using assms by auto
qed

lemma e2_b1: "{k. k < n \<and> face_has_edge North (Ring r0 j) (bridge_face1 n r k)} = {}"
  by (auto simp: edge_defs)

lemma e2_b2: "{k. k < n \<and> face_has_edge North (Ring r0 j) (bridge_face2 n r k)} = {}"
  by (auto simp: edge_defs)

lemma e2_south: "{k. k < n \<and> face_has_edge North (Ring r0 j) (south_face n k)} = {}"
  by (auto simp: edge_defs)

text \<open>Edges along a ring.\<close>

lemma e3_south:
  assumes "3 \<le> n" "j < n"
  shows "{k. k < n \<and> face_has_edge (Ring r j) (Ring r (back_pos n j)) (south_face n k)} =
           (if r = 0 then {j} else {})"
  using assms by (auto simp: edge_defs back_pos_if split: if_splits)

lemma e3_north:
  assumes "3 \<le> n" "j < n"
  shows "{k. k < n \<and> face_has_edge (Ring r j) (Ring r (back_pos n j)) (north_face n m k)} =
           (if r = m - 1 then {j} else {})"
  using assms by (auto simp: edge_defs back_pos_if split: if_splits)

lemma e3_b1:
  assumes "3 \<le> n" "j < n" "1 \<le> r'"
  shows "{k. k < n \<and> face_has_edge (Ring r j) (Ring r (back_pos n j)) (bridge_face1 n r' k)} =
           (if r' = r then {j} else {})"
  using assms by (auto simp: edge_defs back_pos_if split: if_splits)

lemma e3_b2:
  assumes "3 \<le> n" "j < n" "1 \<le> r'"
  shows "{k. k < n \<and> face_has_edge (Ring r j) (Ring r (back_pos n j)) (bridge_face2 n r' k)} =
           (if r' = Suc r then {j} else {})"
  using assms by (auto simp: edge_defs back_pos_if split: if_splits)

text \<open>Edges between a ring and the next one, at one position.\<close>

lemma e4_south: "{k. k < n \<and> face_has_edge (Ring q j) (Ring (Suc q) j) (south_face n k)} = {}"
  by (auto simp: edge_defs)

lemma e4_north: "{k. k < n \<and> face_has_edge (Ring q j) (Ring (Suc q) j) (north_face n m k)} = {}"
  by (auto simp: edge_defs)

lemma e4_b1:
  assumes "3 \<le> n" "j < n" "1 \<le> r'"
  shows "{k. k < n \<and> face_has_edge (Ring q j) (Ring (Suc q) j) (bridge_face1 n r' k)} =
           (if r' = Suc q then {if Suc j = n then 0 else Suc j} else {})"
  using assms by (auto simp: edge_defs back_pos_if split: if_splits)

lemma e4_b2:
  assumes "3 \<le> n" "j < n" "1 \<le> r'"
  shows "{k. k < n \<and> face_has_edge (Ring q j) (Ring (Suc q) j) (bridge_face2 n r' k)} =
           (if r' = Suc q then {j} else {})"
  using assms by (auto simp: edge_defs back_pos_if split: if_splits)

text \<open>Diagonals between a ring and the next one.\<close>

lemma e5_south:
  "{k. k < n \<and> face_has_edge (Ring q (back_pos n j)) (Ring (Suc q) j) (south_face n k)} = {}"
  by (auto simp: edge_defs)

lemma e5_north:
  "{k. k < n \<and> face_has_edge (Ring q (back_pos n j)) (Ring (Suc q) j) (north_face n m k)} = {}"
  by (auto simp: edge_defs)

lemma e5_b1:
  assumes "3 \<le> n" "j < n" "1 \<le> r'"
  shows "{k. k < n \<and> face_has_edge (Ring q (back_pos n j)) (Ring (Suc q) j) (bridge_face1 n r' k)} =
           (if r' = Suc q then {j} else {})"
  using assms by (auto simp: edge_defs back_pos_if split: if_splits)

lemma e5_b2:
  assumes "3 \<le> n" "j < n" "1 \<le> r'"
  shows "{k. k < n \<and> face_has_edge (Ring q (back_pos n j)) (Ring (Suc q) j) (bridge_face2 n r' k)} =
           (if r' = Suc q then {j} else {})"
  using assms by (auto simp: edge_defs back_pos_if split: if_splits)

lemma bridge_sum:
  fixes f :: "nat \<Rightarrow> nat"
  assumes "\<And>r'. 1 \<le> r' \<Longrightarrow> r' < m \<Longrightarrow>
             f r' = (if r' = a then x else 0) + (if r' = b then y else 0)"
  shows "(\<Sum>r'\<leftarrow>[1..<m]. f r') =
           (if 1 \<le> a \<and> a < m then x else 0) + (if 1 \<le> b \<and> b < m then y else 0)"
proof -
  have "map f [1..<m] = map (\<lambda>r'. (if r' = a then x else 0) + (if r' = b then y else 0)) [1..<m]"
    by (rule map_cong) (simp_all add: assms)
  then have "(\<Sum>r'\<leftarrow>[1..<m]. f r') =
      (\<Sum>r'\<leftarrow>[1..<m]. (if r' = a then x else 0) + (if r' = b then y else 0))"
    by (simp only:)
  also have "\<dots> = (\<Sum>r'\<leftarrow>[1..<m]. if r' = a then x else 0) +
      (\<Sum>r'\<leftarrow>[1..<m]. if r' = b then y else 0)"
    by (rule sum_list_addf)
  finally show ?thesis
    unfolding sum_list_upt_delta .
qed

lemma bridge_sum_zero:
  fixes f :: "nat \<Rightarrow> nat"
  assumes "\<And>r'. 1 \<le> r' \<Longrightarrow> r' < m \<Longrightarrow> f r' = 0"
  shows "(\<Sum>r'\<leftarrow>[1..<m]. f r') = 0"
  using bridge_sum [of m f 0 0 0 0] assms by simp

lemma count_south_spoke:
  assumes "3 \<le> n" "j < n"
  shows "face_edge_count n m South (Ring 0 j) = 2"
proof -
  have "(\<Sum>r\<leftarrow>[1..<m]. card {k. k < n \<and> face_has_edge South (Ring 0 j) (bridge_face1 n r k)} +
                    card {k. k < n \<and> face_has_edge South (Ring 0 j) (bridge_face2 n r k)}) = 0"
    by (rule bridge_sum_zero) (simp add: e1_b1 e1_b2)
  then show ?thesis
    unfolding face_edge_count_split by (simp add: e1_south [OF assms] e1_north)
qed

lemma count_north_spoke:
  assumes "3 \<le> n" "j < n" "r0 = m - 1"
  shows "face_edge_count n m North (Ring r0 j) = 2"
proof -
  have "(\<Sum>r\<leftarrow>[1..<m]. card {k. k < n \<and> face_has_edge North (Ring r0 j) (bridge_face1 n r k)} +
                    card {k. k < n \<and> face_has_edge North (Ring r0 j) (bridge_face2 n r k)}) = 0"
    by (rule bridge_sum_zero) (simp add: e2_b1 e2_b2)
  then show ?thesis
    unfolding face_edge_count_split by (simp add: e2_north [OF assms] e2_south)
qed

lemma count_ring_edge:
  assumes "3 \<le> n" "j < n" "r < m"
  shows "face_edge_count n m (Ring r j) (Ring r (back_pos n j)) = 2"
proof -
  let ?u = "Ring r j" and ?v = "Ring r (back_pos n j)"
  have "(\<Sum>r'\<leftarrow>[1..<m]. card {k. k < n \<and> face_has_edge ?u ?v (bridge_face1 n r' k)} +
                    card {k. k < n \<and> face_has_edge ?u ?v (bridge_face2 n r' k)}) =
        (if 1 \<le> r \<and> r < m then 1 else 0) + (if 1 \<le> Suc r \<and> Suc r < m then 1 else 0)"
    by (rule bridge_sum) (simp add: e3_b1 [OF assms(1,2)] e3_b2 [OF assms(1,2)])
  then show ?thesis
    unfolding face_edge_count_split
    using assms(3) by (auto simp: e3_south [OF assms(1,2)] e3_north [OF assms(1,2)])
qed

lemma count_rung_edge:
  assumes "3 \<le> n" "j < n" "Suc q < m"
  shows "face_edge_count n m (Ring q j) (Ring (Suc q) j) = 2"
proof -
  let ?u = "Ring q j" and ?v = "Ring (Suc q) j"
  have "(\<Sum>r'\<leftarrow>[1..<m]. card {k. k < n \<and> face_has_edge ?u ?v (bridge_face1 n r' k)} +
                    card {k. k < n \<and> face_has_edge ?u ?v (bridge_face2 n r' k)}) =
        (if 1 \<le> Suc q \<and> Suc q < m then 1 else 0) + (if 1 \<le> Suc q \<and> Suc q < m then 1 else 0)"
    by (rule bridge_sum) (simp add: e4_b1 [OF assms(1,2)] e4_b2 [OF assms(1,2)])
  then show ?thesis
    unfolding face_edge_count_split
    using assms(3) by (simp add: e4_south e4_north)
qed

lemma count_diagonal_edge:
  assumes "3 \<le> n" "j < n" "Suc q < m"
  shows "face_edge_count n m (Ring q (back_pos n j)) (Ring (Suc q) j) = 2"
proof -
  let ?u = "Ring q (back_pos n j)" and ?v = "Ring (Suc q) j"
  have "(\<Sum>r'\<leftarrow>[1..<m]. card {k. k < n \<and> face_has_edge ?u ?v (bridge_face1 n r' k)} +
                    card {k. k < n \<and> face_has_edge ?u ?v (bridge_face2 n r' k)}) =
        (if 1 \<le> Suc q \<and> Suc q < m then 1 else 0) + (if 1 \<le> Suc q \<and> Suc q < m then 1 else 0)"
    by (rule bridge_sum) (simp add: e5_b1 [OF assms(1,2)] e5_b2 [OF assms(1,2)])
  then show ?thesis
    unfolding face_edge_count_split
    using assms(3) by (simp add: e5_south e5_north)
qed

lemma back_pos_neq: "2 \<le> n \<Longrightarrow> k < n \<Longrightarrow> back_pos n k \<noteq> k"
  by (auto simp: back_pos_if)

lemma sphere_faces_valid:
  assumes "0 < n" "0 < m" "f \<in> set (sphere_faces n m)"
  shows "valid_face n m f"
proof -
  have b: "\<And>k. back_pos n k < n" using assms(1) by (rule back_pos_less)
  from assms(3) consider
    (south) k where "k < n" "f = south_face n k"
    | (b1) r k where "1 \<le> r" "r < m" "k < n" "f = bridge_face1 n r k"
    | (b2) r k where "1 \<le> r" "r < m" "k < n" "f = bridge_face2 n r k"
    | (north) k where "k < n" "f = north_face n m k"
    unfolding set_sphere_faces by blast
  then show ?thesis
    using assms(2) b
    by cases (auto simp: valid_face_def south_face_def bridge_face1_def bridge_face2_def
        north_face_def)
qed

lemma face_edges_count:
  assumes n: "3 \<le> n" and m: "0 < m" and f: "f \<in> set (sphere_faces n m)"
    and e: "(a, b) \<in> set (face_edges f)"
  shows "a \<noteq> b \<and> face_edge_count n m a b = 2"
proof -
  have n0: "0 < n" and n2: "2 \<le> n" using n by simp_all
  have bl: "\<And>k. back_pos n k < n" using n0 by (rule back_pos_less)
  from f consider
    (south) k where "k < n" "f = south_face n k"
    | (b1) r k where "1 \<le> r" "r < m" "k < n" "f = bridge_face1 n r k"
    | (b2) r k where "1 \<le> r" "r < m" "k < n" "f = bridge_face2 n r k"
    | (north) k where "k < n" "f = north_face n m k"
    unfolding set_sphere_faces by blast
  then show ?thesis
  proof cases
    case south
    have c1: "face_edge_count n m South (Ring 0 k) = 2"
      using n south(1) by (rule count_south_spoke)
    have c2: "face_edge_count n m (Ring 0 k) (Ring 0 (back_pos n k)) = 2"
      using n south(1) m by (rule count_ring_edge)
    have c3: "face_edge_count n m (Ring 0 (back_pos n k)) South = 2"
      unfolding face_edge_count_sym [of n m _ South] using n bl by (rule count_south_spoke)
    from e consider "a = South" "b = Ring 0 k" | "a = Ring 0 k" "b = Ring 0 (back_pos n k)"
      | "a = Ring 0 (back_pos n k)" "b = South"
      unfolding south(2) south_face_def face_edges_def by auto
    then show ?thesis
      using c1 c2 c3 back_pos_neq [OF n2 south(1)] by cases auto
  next
    case b1
    obtain q where q: "r = Suc q" using b1(1) by (cases r) auto
    have qm: "Suc q < m" using b1(2) q by simp
    have c1: "face_edge_count n m (Ring q (back_pos n k)) (Ring (Suc q) k) = 2"
      using n b1(3) qm by (rule count_diagonal_edge)
    have c2: "face_edge_count n m (Ring (Suc q) k) (Ring (Suc q) (back_pos n k)) = 2"
      using n b1(3) qm by (rule count_ring_edge)
    have c3: "face_edge_count n m (Ring (Suc q) (back_pos n k)) (Ring q (back_pos n k)) = 2"
      unfolding face_edge_count_sym [of n m "Ring (Suc q) (back_pos n k)"]
      using n bl qm by (rule count_rung_edge)
    from e consider "a = Ring q (back_pos n k)" "b = Ring (Suc q) k"
      | "a = Ring (Suc q) k" "b = Ring (Suc q) (back_pos n k)"
      | "a = Ring (Suc q) (back_pos n k)" "b = Ring q (back_pos n k)"
      unfolding b1(4) q bridge_face1_def face_edges_def by auto
    then show ?thesis
      using c1 c2 c3 back_pos_neq [OF n2 b1(3)] by cases auto
  next
    case b2
    obtain q where q: "r = Suc q" using b2(1) by (cases r) auto
    have qm: "Suc q < m" and qm': "q < m" using b2(2) q by simp_all
    have c1: "face_edge_count n m (Ring (Suc q) k) (Ring q (back_pos n k)) = 2"
      unfolding face_edge_count_sym [of n m "Ring (Suc q) k"]
      using n b2(3) qm by (rule count_diagonal_edge)
    have c2: "face_edge_count n m (Ring q (back_pos n k)) (Ring q k) = 2"
      unfolding face_edge_count_sym [of n m "Ring q (back_pos n k)"]
      using n b2(3) qm' by (rule count_ring_edge)
    have c3: "face_edge_count n m (Ring q k) (Ring (Suc q) k) = 2"
      using n b2(3) qm by (rule count_rung_edge)
    from e consider "a = Ring (Suc q) k" "b = Ring q (back_pos n k)"
      | "a = Ring q (back_pos n k)" "b = Ring q k"
      | "a = Ring q k" "b = Ring (Suc q) k"
      unfolding b2(4) q bridge_face2_def face_edges_def by auto
    then show ?thesis
      using c1 c2 c3 back_pos_neq [OF n2 b2(3)] by cases auto
  next
    case north
    have m1: "m - 1 < m" using m by simp
    have c1: "face_edge_count n m North (Ring (m - 1) (back_pos n k)) = 2"
      using n bl refl by (rule count_north_spoke)
    have c2: "face_edge_count n m (Ring (m - 1) (back_pos n k)) (Ring (m - 1) k) = 2"
      unfolding face_edge_count_sym [of n m "Ring (m - 1) (back_pos n k)"]
      using n north(1) m1 by (rule count_ring_edge)
    have c3: "face_edge_count n m (Ring (m - 1) k) North = 2"
      unfolding face_edge_count_sym [of n m _ North]
      using n north(1) refl by (rule count_north_spoke)
    from e consider "a = North" "b = Ring (m - 1) (back_pos n k)"
      | "a = Ring (m - 1) (back_pos n k)" "b = Ring (m - 1) k"
      | "a = Ring (m - 1) k" "b = North"
      unfolding north(2) north_face_def face_edges_def by auto
    then show ?thesis
      using c1 c2 c3 back_pos_neq [OF n2 north(1)] by cases auto
  qed
qed

lemma tri_edges_face_tri:
  "tri_edges (face_tri n m f) =
     map (\<lambda>(a, b). (vertex_index n m a, vertex_index n m b)) (face_edges f)"
  by (cases f) (simp add: tri_edges_def face_tri_def face_edges_def)

lemma face_edges_valid:
  assumes "valid_face n m f" "(a, b) \<in> set (face_edges f)"
  shows "valid_vertex n m a \<and> valid_vertex n m b"
  using assms by (cases f) (auto simp: valid_face_def face_edges_def)

lemma traversal_edges_twice:
  assumes n: "3 \<le> n" and m: "0 < m" and t: "t \<in> set (spec_traversal n m)"
    and e: "(u, v) \<in> set (tri_edges t)"
  shows "u \<noteq> v \<and> edge_count (spec_traversal n m) u v = 2"
proof -
  have n0: "0 < n" using n by simp
  have "t \<in> face_tri n m ` set (sphere_faces n m)"
    using t unfolding spec_traversal_faces [OF m] by simp
  then obtain f where f: "f \<in> set (sphere_faces n m)" "t = face_tri n m f"
    by blast
  have "(u, v) \<in> (\<lambda>(a, b). (vertex_index n m a, vertex_index n m b)) ` set (face_edges f)"
    using e unfolding f(2) tri_edges_face_tri by simp
  then obtain a b where ab: "(a, b) \<in> set (face_edges f)"
    "u = vertex_index n m a" "v = vertex_index n m b"
    by auto
  have vf: "\<And>g. g \<in> set (sphere_faces n m) \<Longrightarrow> valid_face n m g"
    using n0 m by (rule sphere_faces_valid)
  have va: "valid_vertex n m a" and vb: "valid_vertex n m b"
    using face_edges_valid [OF vf [OF f(1)] ab(1)] by simp_all
  have c: "a \<noteq> b" "face_edge_count n m a b = 2"
    using face_edges_count [OF n m f(1) ab(1)] by simp_all
  have "u \<noteq> v"
    unfolding ab(2,3) using vertex_index_inject [OF va vb] c(1) by simp
  moreover have "edge_count (spec_traversal n m) u v = 2"
    unfolding spec_traversal_faces [OF m] ab(2,3)
    using edge_count_face_tris [of "sphere_faces n m" n m a b, OF vf va vb] c(2)
    by (simp add: face_edge_count_def)
  ultimately show ?thesis ..
qed

section \<open>Single precision and the vertex table\<close>

lemma round_half_even_int: "round_half_even (of_int k) = k"
  by (simp add: round_half_even_def)

lemma float32_0 [simp]: "float32 0 = 0"
  by (simp add: float32_def round_half_even_def)

lemma floor_log2_eq:
  assumes "0 < x" "2 powr of_int k \<le> x" "x < 2 powr of_int (k + 1)"
  shows "\<lfloor>log 2 x\<rfloor> = k"
proof (rule floor_unique)
  show "of_int k \<le> log 2 x"
    using assms(1,2) by (simp add: le_log_iff)
  show "log 2 x < of_int k + 1"
    using assms(1,3) by (simp add: log_less_iff)
qed

lemma float32_fifth: "float32 (1 / 5) = 13421773 / 67108864"
proof -
  have p3: "2 powr of_int (- 3) = (1 / 8 :: real)"
    by (simp add: powr_minus powr_numeral inverse_eq_divide)
  have p2: "2 powr of_int (- 3 + 1) = (1 / 4 :: real)"
    by (simp add: powr_minus powr_numeral inverse_eq_divide)
  have "\<lfloor>log 2 (1 / 5 :: real)\<rfloor> = - 3"
  proof (rule floor_log2_eq)
    show "(0 :: real) < 1 / 5" by simp
    show "2 powr of_int (- 3) \<le> (1 / 5 :: real)" unfolding p3 by simp
    show "(1 / 5 :: real) < 2 powr of_int (- 3 + 1)" unfolding p2 by simp
  qed
  then have e: "float32_exponent (1 / 5) = - 3"
    by (simp add: float32_exponent_def)
  have q: "2 powr of_int (- 3 - 23) = (1 / 67108864 :: real)"
    by (simp add: powr_minus powr_numeral inverse_eq_divide)
  have f: "\<lfloor>67108864 / 5 :: real\<rfloor> = 13421772"
    by (rule floor_unique) simp_all
  have r: "round_half_even (67108864 / 5) = 13421773"
    by (simp add: round_half_even_def f Let_def)
  show ?thesis
    unfolding float32_def e Let_def q by (simp add: r)
qed

lemma float32_ten: "float32 10 = 10"
proof -
  have p3: "2 powr of_int 3 = (8 :: real)"
    by (simp add: powr_numeral)
  have p4: "2 powr of_int (3 + 1) = (16 :: real)"
    by (simp add: powr_numeral)
  have "\<lfloor>log 2 (10 :: real)\<rfloor> = 3"
  proof (rule floor_log2_eq)
    show "(0 :: real) < 10" by simp
    show "2 powr of_int 3 \<le> (10 :: real)" unfolding p3 by simp
    show "(10 :: real) < 2 powr of_int (3 + 1)" unfolding p4 by simp
  qed
  then have e: "float32_exponent 10 = 3"
    by (simp add: float32_exponent_def)
  have q: "2 powr of_int (3 - 23) = (1 / 1048576 :: real)"
    by (simp add: powr_minus powr_numeral inverse_eq_divide)
  have r: "round_half_even (10485760) = 10485760"
    using round_half_even_int [of 10485760] by simp
  show ?thesis
    unfolding float32_def e Let_def q by (simp add: r)
qed

lemma length_geom_vertex_table [simp]: "length (geom_vertex_table vs) = length vs"
  by (simp add: geom_vertex_table_def)

lemma stored_row_origin [simp]: "stored_row (0, 0, 0) = (0, 0, 0)"
  by (simp add: stored_row_def)

lemma sphere_points_last_index: "length (sphere_points radius n m) - 1 = 1 + m * n"
  by (simp add: length_sphere_points mult.commute)

lemma sphere_points_last:
  "sphere_points radius n m ! (length (sphere_points radius n m) - 1) = (0, 0, 2 * radius)"
  unfolding sphere_points_last_index sphere_points_north by (simp add: mult.commute)

lemma geom_vertex_table_south:
  "geom_vertex_table (sphere_points radius n m) ! 0 = (0, 0, 0)"
  by (simp add: geom_vertex_table_def sphere_points_def)

lemma geom_vertex_table_north:
  "geom_vertex_table (sphere_points radius n m) ! (length (sphere_points radius n m) - 1) =
     (0, 0, float32 (2 * radius))"
proof -
  have "1 + m * n < length (sphere_points radius n m)"
    by (simp add: length_sphere_points mult.commute)
  then have "geom_vertex_table (sphere_points radius n m) ! (1 + m * n) =
      stored_row (sphere_points radius n m ! (1 + m * n))"
    unfolding geom_vertex_table_def by (rule nth_map)
  also have "\<dots> = (0, 0, float32 (2 * radius))"
    unfolding sphere_points_north by (simp add: stored_row_def mult.commute)
  finally show ?thesis
    unfolding sphere_points_last_index .
qed

section \<open>The claims\<close>

text \<open>
  Claim C1. For every valid input (radius above 0, at least 3 segments and 3 rings) the
  flat-form generator returns \<open>segments * rings + 2\<close> vertices and
  \<open>2 * segments * rings\<close> triangles; for radius 5, 16 segments and 8 rings these are
  130 vertices and 256 triangles.
\<close>

theorem flat_form_counts:
  assumes "0 < radius" "3 \<le> no_of_segments" "3 \<le> no_of_rings"
  shows "\<exists>vs ts. get_uv_sphere_geom radius no_of_segments no_of_rings = Inr (vs, ts) \<and>
           int (length vs) = no_of_segments * no_of_rings + 2 \<and>
           int (length ts) = 2 * no_of_segments * no_of_rings"
proof -
  have "1 \<le> nat no_of_rings" using assms(3) by simp
  then have "length (spec_traversal (nat no_of_segments) (nat no_of_rings)) =
      2 * nat no_of_segments * nat no_of_rings"
    by (rule length_spec_traversal)
  then have t: "int (length (spec_traversal (nat no_of_segments) (nat no_of_rings))) =
      2 * no_of_segments * no_of_rings"
    using assms by simp
  have v: "int (length (sphere_points radius (nat no_of_segments) (nat no_of_rings))) =
      no_of_segments * no_of_rings + 2"
    using assms by (simp add: length_sphere_points)
  show ?thesis
    using geom_closed_form [OF assms] t v by simp
qed

theorem flat_form_counts_witness:
  "\<exists>vs ts. get_uv_sphere_geom 5 16 8 = Inr (vs, ts) \<and> length vs = 130 \<and> length ts = 256"
  using flat_form_counts [of 5 16 8] by simp

text \<open>
  Claim C2. For every valid input the triangle list of the flat form is the traversal of
  the specification, and the rows handed to the vertex writer are the south pole at
  index 0, the north pole at index \<open>1 + rings * segments\<close> and the point of ring
  \<open>r\<close>, position \<open>s\<close> at index \<open>1 + r * segments + s\<close>.
\<close>

theorem flat_form_identities_and_traversal:
  assumes "0 < radius" "3 \<le> no_of_segments" "3 \<le> no_of_rings"
  shows "\<exists>vs ts. get_uv_sphere_geom radius no_of_segments no_of_rings = Inr (vs, ts) \<and>
           ts = spec_traversal (nat no_of_segments) (nat no_of_rings) \<and>
           vs ! spec_south_pole = (0, 0, 0) \<and>
           vs ! spec_north_pole (nat no_of_segments) (nat no_of_rings) = (0, 0, radius * 2) \<and>
           (\<forall>r < nat no_of_rings. \<forall>s < nat no_of_segments.
              vs ! spec_identity (nat no_of_segments) r s =
                ring_position radius (nat no_of_segments) (nat no_of_rings) r s)"
proof -
  let ?vs = "sphere_points radius (nat no_of_segments) (nat no_of_rings)"
  let ?ts = "spec_traversal (nat no_of_segments) (nat no_of_rings)"
  have south: "?vs ! spec_south_pole = (0, 0, 0)"
    unfolding spec_south_pole_def by (rule sphere_points_south)
  have north: "?vs ! spec_north_pole (nat no_of_segments) (nat no_of_rings) = (0, 0, radius * 2)"
    unfolding spec_north_pole_def by (rule sphere_points_north)
  have ring: "\<forall>r < nat no_of_rings. \<forall>s < nat no_of_segments.
      ?vs ! spec_identity (nat no_of_segments) r s =
        ring_position radius (nat no_of_segments) (nat no_of_rings) r s"
    unfolding spec_identity_def using sphere_points_ring by blast
  show ?thesis
    by (intro exI [of _ ?vs] exI [of _ ?ts] conjI)
      (fact geom_closed_form [OF assms], rule refl, fact south, fact north, fact ring)
qed

theorem flat_form_identities_and_traversal_witness:
  "\<exists>vs ts. get_uv_sphere_geom 1 3 3 = Inr (vs, ts) \<and>
     ts = [(0, 1, 3), (0, 2, 1), (0, 3, 2),
           (3, 4, 6), (4, 3, 1), (1, 5, 4), (5, 1, 2), (2, 6, 5), (6, 2, 3),
           (6, 7, 9), (7, 6, 4), (4, 8, 7), (8, 4, 5), (5, 9, 8), (9, 5, 6),
           (10, 9, 7), (10, 7, 8), (10, 8, 9)] \<and>
     vs ! 0 = (0, 0, 0) \<and> vs ! 10 = (0, 0, 2) \<and> vs ! 6 = ring_position 1 3 3 1 2"
proof -
  obtain vs ts where r:
    "get_uv_sphere_geom 1 3 3 = Inr (vs, ts)"
    "ts = spec_traversal (nat 3) (nat 3)"
    "vs ! spec_south_pole = (0, 0, 0)"
    "vs ! spec_north_pole (nat 3) (nat 3) = (0, 0, 1 * 2)"
    "\<forall>r < nat 3. \<forall>s < nat 3. vs ! spec_identity (nat 3) r s = ring_position 1 (nat 3) (nat 3) r s"
    using flat_form_identities_and_traversal [of 1 3 3] by auto
  have "vs ! spec_identity (nat 3) 1 2 = ring_position 1 (nat 3) (nat 3) 1 2"
    using r(5) by simp
  then show ?thesis
    using r(1-4) by (simp add: spec_traversal_3_3 spec_south_pole_def spec_north_pole_def
        spec_identity_def)
qed



text \<open>
  Claim C4. For every valid input, every edge of every triangle of the flat form joins
  two different vertices and belongs to exactly two triangles of the list.
\<close>

theorem closed_manifold:
  assumes "0 < radius" "3 \<le> no_of_segments" "3 \<le> no_of_rings"
  shows "\<exists>vs ts. get_uv_sphere_geom radius no_of_segments no_of_rings = Inr (vs, ts) \<and>
           (\<forall>t \<in> set ts. \<forall>(u, v) \<in> set (tri_edges t). u \<noteq> v \<and> edge_count ts u v = 2)"
proof -
  have n: "3 \<le> nat no_of_segments" and m: "0 < nat no_of_rings" using assms by simp_all
  have "\<forall>t \<in> set (spec_traversal (nat no_of_segments) (nat no_of_rings)).
          \<forall>(u, v) \<in> set (tri_edges t).
            u \<noteq> v \<and> edge_count (spec_traversal (nat no_of_segments) (nat no_of_rings)) u v = 2"
    using traversal_edges_twice [OF n m] by blast
  then show ?thesis
    by (simp add: geom_closed_form [OF assms])
qed

theorem closed_manifold_witness:
  "\<exists>vs ts. get_uv_sphere_geom 1 3 3 = Inr (vs, ts) \<and>
     edge_count ts 0 1 = 2 \<and> edge_count ts 1 3 = 2 \<and> edge_count ts 3 4 = 2 \<and>
     edge_count ts 4 6 = 2 \<and> edge_count ts 10 9 = 2"
proof -
  have v: "(0::real) < 1" "(3::int) \<le> 3" by simp_all
  obtain vs ts where r: "get_uv_sphere_geom 1 3 3 = Inr (vs, ts)"
    "\<forall>t \<in> set ts. \<forall>(u, v) \<in> set (tri_edges t). u \<noteq> v \<and> edge_count ts u v = 2"
    using closed_manifold [OF v(1) v(2) v(2)] by blast
  have "ts = spec_traversal (nat 3) (nat 3)"
    using r(1) geom_closed_form [OF v(1) v(2) v(2)] by simp
  then have ts: "ts = [(0, 1, 3), (0, 2, 1), (0, 3, 2),
      (3, 4, 6), (4, 3, 1), (1, 5, 4), (5, 1, 2), (2, 6, 5), (6, 2, 3),
      (6, 7, 9), (7, 6, 4), (4, 8, 7), (8, 4, 5), (5, 9, 8), (9, 5, 6),
      (10, 9, 7), (10, 7, 8), (10, 8, 9)]"
    by (simp only: spec_traversal_3_3 nat_numeral)
  have h: "\<And>t u v. t \<in> set ts \<Longrightarrow> (u, v) \<in> set (tri_edges t) \<Longrightarrow> edge_count ts u v = 2"
    using r(2) by blast
  have a: "(0, 1, 3) \<in> set ts" "(3, 4, 6) \<in> set ts" "(10, 9, 7) \<in> set ts"
    unfolding ts by simp_all
  have "edge_count ts 0 1 = 2"
    by (rule h [OF a(1)]) (simp add: tri_edges_def)
  moreover have "edge_count ts 1 3 = 2"
    by (rule h [OF a(1)]) (simp add: tri_edges_def)
  moreover have "edge_count ts 3 4 = 2"
    by (rule h [OF a(2)]) (simp add: tri_edges_def)
  moreover have "edge_count ts 4 6 = 2"
    by (rule h [OF a(2)]) (simp add: tri_edges_def)
  moreover have "edge_count ts 10 9 = 2"
    by (rule h [OF a(3)]) (simp add: tri_edges_def)
  ultimately show ?thesis using r(1) by blast
qed

text \<open>
  Claim C5. Both generators raise \<open>ValueError\<close> exactly when the radius is at most 0
  or there are fewer than 3 segments or fewer than 3 rings; they raise nothing else, and
  a raised error carries no vertex, triangle or polygon: the checks come before the
  first allocation.
\<close>

theorem invalid_argument_iff:
  "(get_uv_sphere_geom radius no_of_segments no_of_rings = Inl ValueError
      \<longleftrightarrow> radius \<le> 0 \<or> no_of_segments < 3 \<or> no_of_rings < 3) \<and>
   (get_uv_sphere_egg_data radius no_of_segments no_of_rings = Inl ValueError
      \<longleftrightarrow> radius \<le> 0 \<or> no_of_segments < 3 \<or> no_of_rings < 3) \<and>
   (isl (get_uv_sphere_geom radius no_of_segments no_of_rings)
      \<longleftrightarrow> radius \<le> 0 \<or> no_of_segments < 3 \<or> no_of_rings < 3) \<and>
   (isl (get_uv_sphere_egg_data radius no_of_segments no_of_rings)
      \<longleftrightarrow> radius \<le> 0 \<or> no_of_segments < 3 \<or> no_of_rings < 3)"
proof (cases "radius \<le> 0 \<or> no_of_segments < 3 \<or> no_of_rings < 3")
  case True
  then show ?thesis
    by (auto simp: get_uv_sphere_geom_def get_uv_sphere_egg_data_def)
next
  case False
  then have v: "0 < radius" "3 \<le> no_of_segments" "3 \<le> no_of_rings" by auto
  show ?thesis
    using False by (simp add: geom_closed_form [OF v] egg_closed_form [OF v])
qed

theorem invalid_argument_iff_witness:
  "get_uv_sphere_geom 0 16 8 = Inl ValueError \<and>
   get_uv_sphere_geom (- 1) 16 8 = Inl ValueError \<and>
   get_uv_sphere_geom 5 2 8 = Inl ValueError \<and>
   get_uv_sphere_geom 5 16 2 = Inl ValueError \<and>
   \<not> isl (get_uv_sphere_geom 5 3 3) \<and>
   get_uv_sphere_egg_data 0 16 8 = Inl ValueError \<and>
   get_uv_sphere_egg_data (- 1) 16 8 = Inl ValueError \<and>
   get_uv_sphere_egg_data 5 2 8 = Inl ValueError \<and>
   get_uv_sphere_egg_data 5 16 2 = Inl ValueError \<and>
   \<not> isl (get_uv_sphere_egg_data 5 3 3)"
  using invalid_argument_iff [of 0 16 8] invalid_argument_iff [of "- 1" 16 8]
    invalid_argument_iff [of 5 2 8] invalid_argument_iff [of 5 16 2]
    invalid_argument_iff [of 5 3 3]
  by simp

text \<open>
  Claim C6 as it is stated fails: with radius \<open>1 / 10\<close>, 3 segments and 3 rings the last
  row of the flat vertex table holds the height \<open>13421773 / 67108864\<close>, the single-precision
  number nearest to \<open>1 / 5\<close>, while the last vertex of the egg pool is at height \<open>1 / 5\<close>.
\<close>

theorem positions_not_identical_counterexample:
  "geom_vertex_table (fst (projr (get_uv_sphere_geom (1 / 10) 3 3))) \<noteq>
     egg_vertex_pool (projr (get_uv_sphere_egg_data (1 / 10) 3 3))"
proof -
  have v: "(0::real) < 1 / 10" "(3::int) \<le> 3" by simp_all
  let ?vs = "sphere_points (1 / 10) (nat 3) (nat 3)"
  have g: "fst (projr (get_uv_sphere_geom (1 / 10) 3 3)) = ?vs"
    by (simp add: geom_closed_form [OF v(1) v(2) v(2)])
  have e: "egg_vertex_pool (projr (get_uv_sphere_egg_data (1 / 10) 3 3)) = ?vs"
    by (simp add: egg_closed_form [OF v(1) v(2) v(2)])
  have a: "geom_vertex_table ?vs ! (length ?vs - 1) = (0, 0, 13421773 / 67108864)"
    unfolding geom_vertex_table_north by (simp add: float32_fifth)
  have b: "?vs ! (length ?vs - 1) = (0, 0, 1 / 5)"
    unfolding sphere_points_last by simp
  have "geom_vertex_table ?vs \<noteq> ?vs"
  proof
    assume "geom_vertex_table ?vs = ?vs"
    then have "geom_vertex_table ?vs ! (length ?vs - 1) = ?vs ! (length ?vs - 1)" by simp
    then show False unfolding a b by simp
  qed
  then show ?thesis unfolding g e .
qed

text \<open>
  Claim C6, amended. For every valid input the polygons of the egg data are, in order,
  the index triples of the flat form, a vertex handle being the position of its vertex
  in the pool in creation order; the pool and the flat vertex table have the same
  number of entries, and row \<open>k\<close> of the flat vertex table holds the position of the
  \<open>k\<close>-th vertex of the pool with each coordinate rounded to single precision.
\<close>

theorem egg_matches_flat_form:
  assumes "0 < radius" "3 \<le> no_of_segments" "3 \<le> no_of_rings"
  shows "\<exists>vs ts e. get_uv_sphere_geom radius no_of_segments no_of_rings = Inr (vs, ts) \<and>
           get_uv_sphere_egg_data radius no_of_segments no_of_rings = Inr e \<and>
           egg_polygons e = map poly_of_tri ts \<and>
           length (egg_vertex_pool e) = length (geom_vertex_table vs) \<and>
           geom_vertex_table vs = map stored_row (egg_vertex_pool e)"
  by (simp add: geom_closed_form [OF assms] egg_closed_form [OF assms] geom_vertex_table_def)

theorem egg_matches_flat_form_witness:
  "\<exists>vs ts e. get_uv_sphere_geom 5 16 8 = Inr (vs, ts) \<and>
           get_uv_sphere_egg_data 5 16 8 = Inr e \<and>
           egg_polygons e = map poly_of_tri ts \<and>
           length (egg_vertex_pool e) = length (geom_vertex_table vs) \<and>
           geom_vertex_table vs = map stored_row (egg_vertex_pool e)"
  using egg_matches_flat_form [of 5 16 8] by simp

text \<open>
  Claim C7 as it is stated fails for the flat form: with radius \<open>1 / 10\<close>, 3 segments and
  3 rings the last row of the flat vertex table is \<open>(0, 0, 13421773 / 67108864)\<close>, not
  \<open>(0, 0, 2 * radius)\<close>.
\<close>

theorem north_pole_not_exact_counterexample:
  "\<not> isl (get_uv_sphere_geom (1 / 10) 3 3) \<and>
   last (geom_vertex_table (fst (projr (get_uv_sphere_geom (1 / 10) 3 3)))) \<noteq>
     (0, 0, 2 * (1 / 10))"
proof -
  have v: "(0::real) < 1 / 10" "(3::int) \<le> 3" by simp_all
  let ?vs = "sphere_points (1 / 10) (nat 3) (nat 3)"
  have g: "get_uv_sphere_geom (1 / 10) 3 3 = Inr (?vs, spec_traversal (nat 3) (nat 3))"
    by (rule geom_closed_form [OF v(1) v(2) v(2)])
  have ne: "geom_vertex_table ?vs \<noteq> []"
    by (simp add: geom_vertex_table_def sphere_points_def)
  have "last (geom_vertex_table ?vs) = geom_vertex_table ?vs ! (length ?vs - 1)"
    using last_conv_nth [OF ne] by simp
  also have "\<dots> = (0, 0, 13421773 / 67108864)"
    unfolding geom_vertex_table_north by (simp add: float32_fifth)
  finally show ?thesis
    unfolding g by simp
qed

text \<open>
  Claim C7, amended. For every valid input the first vertex is at \<open>(0, 0, 0)\<close> in the
  vertex table of the flat form and in the vertex pool of the egg data. The last vertex
  of the egg pool is at \<open>(0, 0, 2 * radius)\<close>; the last row of the flat vertex table is
  \<open>(0, 0, 2 * radius)\<close> with the height rounded to single precision, which is
  \<open>(0, 0, 2 * radius)\<close> itself when \<open>2 * radius\<close> is a single-precision number.
\<close>

theorem pole_positions:
  assumes "0 < radius" "3 \<le> no_of_segments" "3 \<le> no_of_rings"
  shows "\<exists>vs ts e. get_uv_sphere_geom radius no_of_segments no_of_rings = Inr (vs, ts) \<and>
           get_uv_sphere_egg_data radius no_of_segments no_of_rings = Inr e \<and>
           geom_vertex_table vs ! 0 = (0, 0, 0) \<and>
           geom_vertex_table vs ! (length vs - 1) = (0, 0, float32 (2 * radius)) \<and>
           (single_precision (2 * radius) \<longrightarrow>
              geom_vertex_table vs ! (length vs - 1) = (0, 0, 2 * radius)) \<and>
           egg_vertex_pool e ! 0 = (0, 0, 0) \<and>
           egg_vertex_pool e ! (length (egg_vertex_pool e) - 1) = (0, 0, 2 * radius)"
proof -
  let ?vs = "sphere_points radius (nat no_of_segments) (nat no_of_rings)"
  let ?e = "\<lparr>egg_coordinate_system = CSZupRight, egg_vertex_pool = ?vs,
      egg_polygons = map poly_of_tri (spec_traversal (nat no_of_segments) (nat no_of_rings))\<rparr>"
  have 1: "geom_vertex_table ?vs ! 0 = (0, 0, 0)"
    by (rule geom_vertex_table_south)
  have 2: "geom_vertex_table ?vs ! (length ?vs - 1) = (0, 0, float32 (2 * radius))"
    by (rule geom_vertex_table_north)
  have 3: "single_precision (2 * radius) \<longrightarrow>
      geom_vertex_table ?vs ! (length ?vs - 1) = (0, 0, 2 * radius)"
    unfolding 2 single_precision_def by simp
  have 4: "egg_vertex_pool ?e ! 0 = (0, 0, 0)"
    by (simp add: sphere_points_south)
  have 5: "egg_vertex_pool ?e ! (length (egg_vertex_pool ?e) - 1) = (0, 0, 2 * radius)"
    using sphere_points_last [of radius "nat no_of_segments" "nat no_of_rings"] by simp
  show ?thesis
    by (intro exI [of _ ?vs] exI [of _ "spec_traversal (nat no_of_segments) (nat no_of_rings)"]
        exI [of _ ?e] conjI)
      (fact geom_closed_form [OF assms], fact egg_closed_form [OF assms],
        fact 1, fact 2, fact 3, fact 4, fact 5)
qed

theorem pole_positions_witness:
  "\<exists>vs ts e. get_uv_sphere_geom 5 16 8 = Inr (vs, ts) \<and>
           get_uv_sphere_egg_data 5 16 8 = Inr e \<and>
           geom_vertex_table vs ! 0 = (0, 0, 0) \<and>
           geom_vertex_table vs ! (length vs - 1) = (0, 0, 10) \<and>
           egg_vertex_pool e ! 0 = (0, 0, 0) \<and>
           egg_vertex_pool e ! (length (egg_vertex_pool e) - 1) = (0, 0, 10)"
proof -
  have s: "single_precision (2 * 5)"
    by (simp add: single_precision_def float32_ten)
  show ?thesis
    using pole_positions [of 5 16 8] s by auto
qed

text \<open>
  Claim C8. For every valid input, every vertex of the flat form other than the first
  and the last lies on the sphere: with \<open>h\<close> its height and \<open>d\<close> its distance from
  the vertical axis, \<open>d\<^sup>2 + (h - radius)\<^sup>2 = radius\<^sup>2\<close>. The positions are the rows
  as they are computed, over the real numbers.
\<close>

theorem ring_vertices_on_sphere:
  assumes "0 < radius" "3 \<le> no_of_segments" "3 \<le> no_of_rings"
  shows "\<exists>vs ts. get_uv_sphere_geom radius no_of_segments no_of_rings = Inr (vs, ts) \<and>
           (\<forall>i. 0 < i \<and> i < length vs - 1 \<longrightarrow> on_sphere radius (vs ! i))"
proof -
  let ?vs = "sphere_points radius (nat no_of_segments) (nat no_of_rings)"
  have "\<forall>i. 0 < i \<and> i < length ?vs - 1 \<longrightarrow> on_sphere radius (?vs ! i)"
    using sphere_points_interior ring_position_on_sphere by metis
  then show ?thesis
    by (simp add: geom_closed_form [OF assms])
qed

theorem ring_vertices_on_sphere_witness:
  "\<exists>vs ts. get_uv_sphere_geom 5 16 8 = Inr (vs, ts) \<and> length vs = 130 \<and>
     on_sphere 5 (vs ! 1) \<and> on_sphere 5 (vs ! 128)"
proof -
  have v: "(0::real) < 5" "(3::int) \<le> 16" "(3::int) \<le> 8" by simp_all
  obtain vs ts where r: "get_uv_sphere_geom 5 16 8 = Inr (vs, ts)"
    "\<forall>i. 0 < i \<and> i < length vs - 1 \<longrightarrow> on_sphere 5 (vs ! i)"
    using ring_vertices_on_sphere [OF v] by blast
  have "vs = sphere_points 5 (nat 16) (nat 8)"
    using r(1) geom_closed_form [OF v] by simp
  then have l: "length vs = 130" by (simp add: length_sphere_points)
  then have "on_sphere 5 (vs ! 1)" "on_sphere 5 (vs ! 128)" using r(2) by simp_all
  then show ?thesis using r(1) l by blast
qed

text \<open>
  Claim C9 as it is stated fails: with \<open>quantity = 2\<close>, \<open>include_last\<close> and
  \<open>circle_proportion = 3\<close> the second sample's angle is \<open>4 * pi\<close>, while the angle
  reduced modulo \<open>2 * pi\<close> is 0.
\<close>

theorem arc_angle_not_modulo_counterexample:
  "plus_angle_radians 2 0 True 3 1 \<noteq> spec_arc_angle 2 0 True 3 1"
proof -
  have u: "unwrapped_angle 2 0 True 3 1 = 6 * pi"
    by (simp add: unwrapped_angle_def py_mod_0)
  have "\<lfloor>6 * pi / (2 * pi)\<rfloor> = (3::int)" by simp
  then have s: "spec_arc_angle 2 0 True 3 1 = 0"
    unfolding spec_arc_angle_def u py_mod_def by simp
  have c: "plus_angle_radians 2 0 True 3 1 = 4 * pi"
    by (simp add: plus_angle_radians_def plus_start_angle_def py_mod_0 plus_divisor_def tau_def)
  show ?thesis unfolding s c by simp
qed

text \<open>
  Claim C9, amended. The \<open>i\<close>-th sample of the arc sampler is the point at the angle
  \<open>a\<close>, where \<open>u = start_angle + (i / divisor) * proportion * 2 * pi\<close>,
  \<open>start_angle = ((start_degrees % 360) / 360) * 2 * pi\<close>, the divisor is \<open>quantity\<close>,
  or \<open>quantity - 1\<close> with \<open>include_last\<close> (then the last sample has
  \<open>u = start_angle + proportion * 2 * pi\<close>), and \<open>a = u - 2 * pi\<close> if \<open>u > 2 * pi\<close>,
  else \<open>a = u\<close>: \<open>2 * pi\<close> is subtracted once, and only from an angle above
  \<open>2 * pi\<close>. This is the angle modulo \<open>2 * pi\<close> when \<open>0 \<le> u < 2 * pi\<close> or
  \<open>2 * pi < u < 4 * pi\<close>.
\<close>

theorem arc_sampler_angles:
  assumes "yield_2d_circle_points_plus quantity radius start_degrees include_last
             circle_proportion center = Inr ps"
    and "i < length ps"
  shows "ps ! i =
           (radius * cos (plus_angle_radians quantity start_degrees include_last circle_proportion i)
              + fst center,
            radius * sin (plus_angle_radians quantity start_degrees include_last circle_proportion i)
              + snd center) \<and>
         plus_angle_radians quantity start_degrees include_last circle_proportion i =
           (let u = unwrapped_angle quantity start_degrees include_last circle_proportion i
            in if u > 2 * pi then u - 2 * pi else u) \<and>
         (include_last \<and> 2 \<le> quantity \<and> int i = quantity - 1 \<longrightarrow>
            unwrapped_angle quantity start_degrees include_last circle_proportion i =
              ((py_mod start_degrees 360) / 360) * (2 * pi) + circle_proportion * (2 * pi)) \<and>
         (let u = unwrapped_angle quantity start_degrees include_last circle_proportion i
          in (0 \<le> u \<and> u < 2 * pi) \<or> (2 * pi < u \<and> u < 4 * pi) \<longrightarrow>
             plus_angle_radians quantity start_degrees include_last circle_proportion i =
               spec_arc_angle quantity start_degrees include_last circle_proportion i)"
proof -
  let ?a = "plus_angle_radians quantity start_degrees include_last circle_proportion"
  let ?u = "unwrapped_angle quantity start_degrees include_last circle_proportion i"
  have ps: "ps = map (\<lambda>point_index.
                  let angle_radians = ?a point_index;
                      x = radius * cos angle_radians;
                      y = radius * sin angle_radians
                  in (x + fst center, y + snd center)) [0..<nat quantity]"
    using assms(1) by (simp add: yield_2d_circle_points_plus_def split: if_splits)
  have i: "i < nat quantity" using assms(2) ps by simp
  have 1: "ps ! i = (radius * cos (?a i) + fst center, radius * sin (?a i) + snd center)"
    using i by (simp add: ps Let_def)
  have 2: "?a i = (let u = ?u in if u > 2 * pi then u - 2 * pi else u)"
    by (simp add: plus_angle_radians_def unwrapped_angle_def plus_start_angle_def
        plus_divisor_def tau_def Let_def algebra_simps)
  have 3: "include_last \<and> 2 \<le> quantity \<and> int i = quantity - 1 \<longrightarrow>
            ?u = ((py_mod start_degrees 360) / 360) * (2 * pi) + circle_proportion * (2 * pi)"
  proof (intro impI, elim conjE)
    assume a: "include_last" "2 \<le> quantity" "int i = quantity - 1"
    have "real_of_int (quantity - 1) = real i"
      using a(3) by (metis of_int_of_nat_eq)
    moreover have "real i \<noteq> 0" using a(2,3) by auto
    ultimately show "?u = ((py_mod start_degrees 360) / 360) * (2 * pi) + circle_proportion * (2 * pi)"
      using a(1) by (simp add: unwrapped_angle_def)
  qed
  have 4: "(let u = ?u in (0 \<le> u \<and> u < 2 * pi) \<or> (2 * pi < u \<and> u < 4 * pi) \<longrightarrow>
             ?a i = spec_arc_angle quantity start_degrees include_last circle_proportion i)"
    unfolding 2 spec_arc_angle_def Let_def
    using py_mod_small [of ?u "2 * pi"] py_mod_second [of "2 * pi" ?u] by auto
  show ?thesis using 1 2 3 4 by blast
qed

theorem arc_sampler_angles_witness:
  "yield_2d_circle_points_plus 2 1 0 True 3 (0, 0) =
     Inr [(1 * cos (plus_angle_radians 2 0 True 3 0) + 0, 1 * sin (plus_angle_radians 2 0 True 3 0) + 0),
          (1 * cos (plus_angle_radians 2 0 True 3 1) + 0, 1 * sin (plus_angle_radians 2 0 True 3 1) + 0)] \<and>
   plus_angle_radians 2 0 True 3 1 = 4 * pi \<and>
   unwrapped_angle 2 0 True 3 1 = 0 + 3 * (2 * pi)"
proof -
  let ?ps = "[(1 * cos (plus_angle_radians 2 0 True 3 0) + 0, 1 * sin (plus_angle_radians 2 0 True 3 0) + 0),
          (1 * cos (plus_angle_radians 2 0 True 3 1) + 0, 1 * sin (plus_angle_radians 2 0 True 3 1) + 0)]"
  have y: "yield_2d_circle_points_plus 2 1 0 True 3 (0, 0) = Inr ?ps"
    by (simp add: yield_2d_circle_points_plus_def plus_divisor_def upt_rec numeral_2_eq_2 Let_def)
  have l: "1 < length ?ps" by simp
  have u: "unwrapped_angle 2 0 True 3 1 = 6 * pi"
    by (simp add: unwrapped_angle_def py_mod_0)
  show ?thesis
    using arc_sampler_angles [OF y l] y u by (simp add: py_mod_0)
qed

text \<open>
  Claim C10. With \<open>include_last\<close> and \<open>quantity = 1\<close> the arc sampler raises
  \<open>ZeroDivisionError\<close> at its first sample. The generators call it with
  \<open>quantity = rings + 2\<close>, at least 5 once the checks have passed, so neither
  generator ever raises \<open>ZeroDivisionError\<close>.
\<close>

theorem sampler_zero_divisor_unreachable:
  "yield_2d_circle_points_plus 1 radius start_degrees True circle_proportion center
     = Inl ZeroDivisionError \<and>
   (3 \<le> no_of_rings \<longrightarrow>
      5 \<le> no_of_rings + 2 \<and>
      plus_divisor (no_of_rings + 2) True \<noteq> 0 \<and>
      \<not> isl (yield_2d_circle_points_plus (no_of_rings + 2) radius 270 True (1/2) (0, radius)) \<and>
      \<not> isl (segment_points_xz radius no_of_rings)) \<and>
   get_uv_sphere_geom radius no_of_segments no_of_rings \<noteq> Inl ZeroDivisionError \<and>
   get_uv_sphere_egg_data radius no_of_segments no_of_rings \<noteq> Inl ZeroDivisionError"
proof -
  have a: "yield_2d_circle_points_plus 1 radius start_degrees True circle_proportion center
     = Inl ZeroDivisionError"
    by (simp add: yield_2d_circle_points_plus_def plus_divisor_def)
  have b: "3 \<le> no_of_rings \<longrightarrow>
      5 \<le> no_of_rings + 2 \<and>
      plus_divisor (no_of_rings + 2) True \<noteq> 0 \<and>
      \<not> isl (yield_2d_circle_points_plus (no_of_rings + 2) radius 270 True (1/2) (0, radius)) \<and>
      \<not> isl (segment_points_xz radius no_of_rings)"
    by (simp add: yield_2d_circle_points_plus_def plus_divisor_def segment_points_xz_def Let_def)
  have c: "get_uv_sphere_geom radius no_of_segments no_of_rings \<noteq> Inl ZeroDivisionError"
  proof (cases "radius \<le> 0 \<or> no_of_segments < 3 \<or> no_of_rings < 3")
    case True
    then show ?thesis by (auto simp: get_uv_sphere_geom_def)
  next
    case False
    then have v: "0 < radius" "3 \<le> no_of_segments" "3 \<le> no_of_rings" by auto
    show ?thesis by (simp add: geom_closed_form [OF v])
  qed
  have d: "get_uv_sphere_egg_data radius no_of_segments no_of_rings \<noteq> Inl ZeroDivisionError"
  proof (cases "radius \<le> 0 \<or> no_of_segments < 3 \<or> no_of_rings < 3")
    case True
    then show ?thesis by (auto simp: get_uv_sphere_egg_data_def)
  next
    case False
    then have v: "0 < radius" "3 \<le> no_of_segments" "3 \<le> no_of_rings" by auto
    show ?thesis by (simp add: egg_closed_form [OF v])
  qed
  show ?thesis using a b c d by blast
qed

theorem sampler_zero_divisor_unreachable_witness:
  "yield_2d_circle_points_plus 1 5 270 True (1/2) (0, 5) = Inl ZeroDivisionError \<and>
   plus_divisor (8 + 2) True = 9 \<and>
   \<not> isl (segment_points_xz 5 8) \<and>
   get_uv_sphere_geom 5 16 8 \<noteq> Inl ZeroDivisionError \<and>
   get_uv_sphere_egg_data 5 16 8 \<noteq> Inl ZeroDivisionError"
  using sampler_zero_divisor_unreachable [of 5 270 "1/2" "(0, 5)" 8 16]
  by (simp add: plus_divisor_def)

end
